theory Spec2Isabelle
  imports Main "HOL-Library.Multiset"
begin

section \<open>Python values used by hg-reset.py\<close>

text \<open>
  The script works on Python 3 \<open>bytes\<close>, \<open>int\<close> and \<open>None\<close>. Bytes are modelled as
  \<open>string\<close> (a list of 8-bit characters), Python's unbounded integers as \<open>int\<close>.
  Every exception the script can meet is a constructor of \<open>error\<close>; a computation that
  may raise returns \<open>error + 'a\<close> with \<open>Inl\<close> for the exception.
\<close>

datatype error =
    KeyError string
  | LookupError
  | IndexError
  | ValueError
  | TypeError
  | AttributeError
  | UnicodeDecodeError
  | BackendError string

datatype pyval = PNone | PInt int | PBytes string

subsection \<open>Formatting with \<open>b"%d"\<close>\<close>

definition digit_char :: "nat \<Rightarrow> char" where
  "digit_char d = char_of (48 + d)"

fun digits_nat :: "nat \<Rightarrow> string" where
  "digits_nat n = (if n < 10 then [digit_char n] else digits_nat (n div 10) @ [digit_char (n mod 10)])"

declare digits_nat.simps [simp del]

definition fmt_d :: "int \<Rightarrow> string" where
  "fmt_d i = (if i < 0 then CHR ''-'' # digits_nat (nat (- i)) else digits_nat (nat i))"

subsection \<open>Parsing with \<open>int(...)\<close>\<close>

text \<open>
  \<open>int(x)\<close> returns an \<open>int\<close> argument unchanged, raises \<open>TypeError\<close> on \<open>None\<close>, and
  parses a \<open>bytes\<close> argument in base 10: surrounding ASCII whitespace is dropped, one
  sign is allowed, and the digits may be separated by single underscores. Anything else
  is a \<open>ValueError\<close>.
\<close>

definition is_space :: "char \<Rightarrow> bool" where
  "is_space c = (c = CHR '' '' \<or> c = CHR 0x09 \<or> c = CHR 0x0A \<or> c = CHR 0x0B \<or> c = CHR 0x0C \<or> c = CHR 0x0D)"

definition is_digit :: "char \<Rightarrow> bool" where
  "is_digit c = (48 \<le> (of_char c :: nat) \<and> (of_char c :: nat) \<le> 57)"

definition digit_val :: "char \<Rightarrow> nat" where
  "digit_val c = of_char c - 48"

definition strip :: "string \<Rightarrow> string" where
  "strip s = rev (dropWhile is_space (rev (dropWhile is_space s)))"

fun digits_val :: "nat \<Rightarrow> string \<Rightarrow> nat option" where
  "digits_val acc [] = None"
| "digits_val acc [c] = (if is_digit c then Some (acc * 10 + digit_val c) else None)"
| "digits_val acc (c # d # ds) =
     (if is_digit c
      then (if d = CHR ''_'' then digits_val (acc * 10 + digit_val c) ds
            else digits_val (acc * 10 + digit_val c) (d # ds))
      else None)"

definition parse_int :: "string \<Rightarrow> error + int" where
  "parse_int s =
     (case strip s of
        [] \<Rightarrow> Inl ValueError
      | c # cs \<Rightarrow>
          if c = CHR ''-'' then (case digits_val 0 cs of None \<Rightarrow> Inl ValueError | Some n \<Rightarrow> Inr (- int n))
          else if c = CHR ''+'' then (case digits_val 0 cs of None \<Rightarrow> Inl ValueError | Some n \<Rightarrow> Inr (int n))
          else (case digits_val 0 (c # cs) of None \<Rightarrow> Inl ValueError | Some n \<Rightarrow> Inr (int n)))"

fun py_int :: "pyval \<Rightarrow> error + int" where
  "py_int (PInt i) = Inr i"
| "py_int (PBytes s) = parse_int s"
| "py_int PNone = Inl TypeError"

subsection \<open>Dictionaries used as presence sets\<close>

text \<open>
  \<open>reachable\<close>, \<open>heads\<close>, \<open>stoprevs\<close> and \<open>stale\<close> are dictionaries of which only the
  keys matter. A dictionary keeps its keys in insertion order, so each is the list of
  its keys: storing an existing key keeps its place, a new key goes to the end, and
  \<open>del\<close> removes the key.
\<close>

definition dict_set :: "'k \<Rightarrow> 'k list \<Rightarrow> 'k list" where
  "dict_set k d = (if k \<in> set d then d else d @ [k])"

definition dict_del :: "'k \<Rightarrow> 'k list \<Rightarrow> 'k list" where
  "dict_del k d = removeAll k d"

definition fromkeys :: "'k list \<Rightarrow> 'k list" where
  "fromkeys ks = foldl (\<lambda>d k. dict_set k d) [] ks"

text \<open>\<open>range(a, b)\<close> with the default step 1.\<close>

definition py_range :: "int \<Rightarrow> int \<Rightarrow> int list" where
  "py_range a b = [a..b - 1]"

section \<open>The revision graph backend\<close>

text \<open>
  The Mercurial repository object is an external collaborator. The script uses
  \<open>repo.changelog.count()\<close>, \<open>rev(node)\<close>, \<open>node(rev)\<close>, \<open>parentrevs(rev)\<close> and
  \<open>repo.tagslist()\<close>; a lookup that the backend refuses raises. \<open>get_changeset\<close> of
  \<open>hg2git\<close> returns an 8-tuple of which the script keeps the user, the description
  and the branch; it is called with the revision as \<open>bytes\<close> in \<open>get_branches\<close> and as
  \<open>int\<close> in \<open>get_tags\<close>. The \<open>ui\<close> argument is only passed through and is left out.
\<close>

record changeset =
  cs_user :: string
  cs_desc :: string
  cs_branch :: string

record repo =
  changelog_count :: int
  changelog_rev :: "string \<Rightarrow> error + int"
  changelog_node :: "int \<Rightarrow> error + string"
  changelog_parentrevs :: "int \<Rightarrow> error + int list"
  tagslist :: "(string \<times> string) list"
  get_changeset :: "pyval \<Rightarrow> error + changeset"

definition nullid :: string where
  "nullid = replicate 20 (CHR 0x00)"

section \<open>Head Finder: \<open>heads\<close>\<close>

text \<open>
  The body of the inner loop \<open>for p in parentrevs(r)\<close>, on the pair of dictionaries
  \<open>(reachable, heads)\<close>.
\<close>

definition heads_parent :: "int list \<Rightarrow> int \<Rightarrow> int \<Rightarrow> int list \<times> int list \<Rightarrow> int list \<times> int list" where
  "heads_parent stoprevs r p st =
     (let (reachable, hs) = st;
          (reachable1, hs1) =
            (if p \<in> set reachable
             then ((if r \<notin> set stoprevs then dict_set r reachable else reachable), dict_set r hs)
             else (reachable, hs))
      in if p \<in> set hs1 \<and> p \<notin> set stoprevs then (reachable1, dict_del p hs1) else (reachable1, hs1))"

text \<open>One round of the outer loop: \<open>parentrevs(r)\<close> is asked, then its parents are visited in order.\<close>

definition heads_rev :: "repo \<Rightarrow> int list \<Rightarrow> int list \<times> int list \<Rightarrow> int \<Rightarrow> error + int list \<times> int list" where
  "heads_rev rp stoprevs st r =
     (case changelog_parentrevs rp r of
        Inl e \<Rightarrow> Inl e
      | Inr ps \<Rightarrow> Inr (foldl (\<lambda>s p. heads_parent stoprevs r p s) st ps))"

fun heads_scan :: "repo \<Rightarrow> int list \<Rightarrow> int list \<times> int list \<Rightarrow> int list \<Rightarrow> error + int list \<times> int list" where
  "heads_scan rp stoprevs st [] = Inr st"
| "heads_scan rp stoprevs st (r # rs) =
     (case heads_rev rp stoprevs st r of
        Inl e \<Rightarrow> Inl e
      | Inr st1 \<Rightarrow> heads_scan rp stoprevs st1 rs)"

text \<open>A list comprehension whose element expression may raise stops at the first exception.\<close>

fun map_err :: "('a \<Rightarrow> error + 'b) \<Rightarrow> 'a list \<Rightarrow> error + 'b list" where
  "map_err f [] = Inr []"
| "map_err f (x # xs) =
     (case f x of
        Inl e \<Rightarrow> Inl e
      | Inr y \<Rightarrow> (case map_err f xs of Inl e \<Rightarrow> Inl e | Inr ys \<Rightarrow> Inr (y # ys)))"

text \<open>
  The dictionaries after the scan: the prologue of \<open>heads\<close> (defaults, \<open>stoprevs\<close>,
  \<open>startrev\<close>, the two seeds) followed by the scan over \<open>range(startrev + 1, max)\<close>.
  The result also carries \<open>startrev\<close>.
\<close>

definition heads_dicts :: "repo \<Rightarrow> string option \<Rightarrow> string list option \<Rightarrow> int option \<Rightarrow> error + int \<times> int list \<times> int list" where
  "heads_dicts rp start stop mx =
     (let start1 = (case start of None \<Rightarrow> nullid | Some n \<Rightarrow> n);
          stop1 = (case stop of None \<Rightarrow> [] | Some ns \<Rightarrow> ns);
          mx1 = (case mx of None \<Rightarrow> changelog_count rp | Some m \<Rightarrow> m)
      in case map_err (changelog_rev rp) stop1 of
           Inl e \<Rightarrow> Inl e
         | Inr srs \<Rightarrow>
             (case changelog_rev rp start1 of
                Inl e \<Rightarrow> Inl e
              | Inr startrev \<Rightarrow>
                  (case heads_scan rp (fromkeys srs) ([startrev], [startrev]) (py_range (startrev + 1) mx1) of
                     Inl e \<Rightarrow> Inl e
                   | Inr (reachable, hs) \<Rightarrow> Inr (startrev, reachable, hs))))"

definition heads :: "repo \<Rightarrow> string option \<Rightarrow> string list option \<Rightarrow> int option \<Rightarrow> error + (string \<times> string) list" where
  "heads rp start stop mx =
     (case heads_dicts rp start stop mx of
        Inl e \<Rightarrow> Inl e
      | Inr (startrev, reachable, hs) \<Rightarrow>
          map_err (\<lambda>r. case changelog_node rp r of Inl e \<Rightarrow> Inl e | Inr n \<Rightarrow> Inr (n, fmt_d r)) hs)"

section \<open>Caches and the collaborators from \<open>hg2git\<close>\<close>

text \<open>
  The caches are dictionaries from \<open>bytes\<close> to \<open>bytes\<close>, kept as association lists in
  insertion order; a lookup finds the entry of a key. The branch classifier compares a
  cached value with \<open>is\<close>, which is object identity, so a value of a cache (and a result
  of \<open>get_git_sha1\<close>) is a reference: the identity of the object and its content. Two
  references with the same identity are the same object; \<open>==\<close> on bytes compares the
  contents only.
\<close>

datatype bytes_ref = BytesRef (ident: nat) (content: string)

type_synonym cache = "(string \<times> bytes_ref) list"

fun py_is :: "bytes_ref option \<Rightarrow> bytes_ref option \<Rightarrow> bool" where
  "py_is None None = True"
| "py_is (Some a) (Some b) = (ident a = ident b)"
| "py_is _ _ = False"

definition ref_val :: "bytes_ref option \<Rightarrow> pyval" where
  "ref_val v = (case v of None \<Rightarrow> PNone | Some b \<Rightarrow> PBytes (content b))"

text \<open>
  What the script imports and does not define: \<open>get_git_sha1\<close>, \<open>load_cache\<close> (given the
  file name and, for the marks file, the key function) and \<open>setup_repo\<close> of \<open>hg2git\<close>,
  the \<open>bytes.decode("utf8")\<close> of the report, and the text \<open>parser.print_help()\<close> prints.
  Each is a parameter, so every theorem holds for whatever they compute.
\<close>

record env =
  get_git_sha1 :: "string \<Rightarrow> error + bytes_ref option"
  load_cache :: "string \<Rightarrow> (string \<Rightarrow> error + string) option \<Rightarrow> error + cache"
  setup_repo :: "string \<Rightarrow> error + repo"
  decode_utf8 :: "string \<Rightarrow> error + string"
  usage_text :: string

section \<open>Sorting the records\<close>

text \<open>
  A record of a branch or a tag is a Python list of \<open>bytes\<close>, \<open>int\<close> and \<open>None\<close>.
  \<open>list.sort()\<close> orders by \<open><\<close> on lists: the first position where two lists differ
  (by \<open>==\<close>) decides, and there \<open><\<close> of \<open>bytes\<close> with \<open>bytes\<close> or \<open>int\<close> with \<open>int\<close> is
  defined, any other pair raises \<open>TypeError\<close>. The sort is stable; the model makes the
  comparisons of a straight insertion sort and stops at the first exception.
\<close>

fun bytes_lt :: "string \<Rightarrow> string \<Rightarrow> bool" where
  "bytes_lt [] [] = False"
| "bytes_lt [] (y # ys) = True"
| "bytes_lt (x # xs) [] = False"
| "bytes_lt (x # xs) (y # ys) = (if x = y then bytes_lt xs ys else (of_char x :: nat) < of_char y)"

fun py_lt :: "pyval \<Rightarrow> pyval \<Rightarrow> error + bool" where
  "py_lt (PInt a) (PInt b) = Inr (a < b)"
| "py_lt (PBytes a) (PBytes b) = Inr (bytes_lt a b)"
| "py_lt _ _ = Inl TypeError"

fun list_lt :: "pyval list \<Rightarrow> pyval list \<Rightarrow> error + bool" where
  "list_lt [] [] = Inr False"
| "list_lt [] (y # ys) = Inr True"
| "list_lt (x # xs) [] = Inr False"
| "list_lt (x # xs) (y # ys) = (if x = y then list_lt xs ys else py_lt x y)"

fun insort_py :: "pyval list \<Rightarrow> pyval list list \<Rightarrow> error + pyval list list" where
  "insort_py x [] = Inr [x]"
| "insort_py x (y # ys) =
     (case list_lt x y of
        Inl e \<Rightarrow> Inl e
      | Inr lt \<Rightarrow>
          if lt then Inr (x # y # ys)
          else (case insort_py x ys of Inl e \<Rightarrow> Inl e | Inr zs \<Rightarrow> Inr (y # zs)))"

fun sort_into :: "pyval list list \<Rightarrow> pyval list list \<Rightarrow> error + pyval list list" where
  "sort_into acc [] = Inr acc"
| "sort_into acc (x # xs) =
     (case insort_py x acc of Inl e \<Rightarrow> Inl e | Inr acc1 \<Rightarrow> sort_into acc1 xs)"

definition py_sort :: "pyval list list \<Rightarrow> error + pyval list list" where
  "py_sort xs = sort_into [] xs"

section \<open>Branch Classifier: \<open>get_branches\<close>\<close>

text \<open>\<open>desc.split(b"\n")[0]\<close>: the text before the first newline.\<close>

definition first_line :: "string \<Rightarrow> string" where
  "first_line d = takeWhile (\<lambda>c. c \<noteq> CHR 0x0A) d"

text \<open>A \<open>for\<close> loop whose body may raise, on the state the body updates.\<close>

fun fold_err :: "('s \<Rightarrow> 'a \<Rightarrow> error + 's) \<Rightarrow> 's \<Rightarrow> 'a list \<Rightarrow> error + 's" where
  "fold_err f s [] = Inr s"
| "fold_err f s (x # xs) = (case f s x of Inl e \<Rightarrow> Inl e | Inr s1 \<Rightarrow> fold_err f s1 xs)"

text \<open>
  The body of \<open>for node, rev in h\<close> on \<open>(stale, changed, unchanged)\<close>. \<open>del stale[branch]\<close>
  raises \<open>KeyError\<close> when the branch is not a key of \<open>stale\<close>.
\<close>

definition branches_step ::
  "env \<Rightarrow> repo \<Rightarrow> cache \<Rightarrow> string list \<times> pyval list list \<times> pyval list list \<Rightarrow> string \<times> string
     \<Rightarrow> error + string list \<times> pyval list list \<times> pyval list list" where
  "branches_step ev rp marks_cache st h =
     (let (stale, changed, unchanged) = st; (nd, rv) = h
      in case get_changeset rp (PBytes rv) of
           Inl e \<Rightarrow> Inl e
         | Inr cs \<Rightarrow>
             if cs_branch cs \<notin> set stale then Inl (KeyError (cs_branch cs))
             else
               (case get_git_sha1 ev (cs_branch cs) of
                  Inl e \<Rightarrow> Inl e
                | Inr git_sha1 \<Rightarrow>
                    (case py_int (PBytes rv) of
                       Inl e \<Rightarrow> Inl e
                     | Inr i \<Rightarrow>
                         (let cache_sha1 = map_of marks_cache (fmt_d (i + 1));
                              entry = [PBytes (cs_branch cs), ref_val cache_sha1, PBytes rv,
                                       PBytes (first_line (cs_desc cs)), PBytes (cs_user cs)]
                          in if git_sha1 \<noteq> None \<and> py_is git_sha1 cache_sha1
                             then Inr (dict_del (cs_branch cs) stale, changed, unchanged @ [entry])
                             else Inr (dict_del (cs_branch cs) stale, changed @ [entry], unchanged)))))"

definition get_branches ::
  "env \<Rightarrow> repo \<Rightarrow> cache \<Rightarrow> cache \<Rightarrow> cache \<Rightarrow> int
     \<Rightarrow> error + string list \<times> pyval list list \<times> pyval list list" where
  "get_branches ev rp heads_cache marks_cache mapping_cache mx =
     (case heads rp None None (Some mx) of
        Inl e \<Rightarrow> Inl e
      | Inr h \<Rightarrow>
          (case fold_err (branches_step ev rp marks_cache) (fromkeys (map fst heads_cache), [], []) h of
             Inl e \<Rightarrow> Inl e
           | Inr (stale, changed, unchanged) \<Rightarrow>
               (case py_sort changed of
                  Inl e \<Rightarrow> Inl e
                | Inr changed1 \<Rightarrow>
                    (case py_sort unchanged of
                       Inl e \<Rightarrow> Inl e
                     | Inr unchanged1 \<Rightarrow> Inr (stale, changed1, unchanged1)))))"

section \<open>Tag Classifier: \<open>get_tags\<close>\<close>

definition hex_digit :: "nat \<Rightarrow> char" where
  "hex_digit d = (if d < 10 then char_of (48 + d) else char_of (87 + d))"

definition hexlify :: "string \<Rightarrow> string" where
  "hexlify bs = concat (map (\<lambda>c. [hex_digit ((of_char c :: nat) div 16), hex_digit ((of_char c :: nat) mod 16)]) bs)"

text \<open>\<open>int(mapping_cache[hexlify(node)])\<close>: the subscript raises \<open>KeyError\<close> on a missing key.\<close>

definition tag_rev :: "cache \<Rightarrow> string \<Rightarrow> error + int" where
  "tag_rev mapping_cache nd =
     (case map_of mapping_cache (hexlify nd) of
        None \<Rightarrow> Inl (KeyError (hexlify nd))
      | Some v \<Rightarrow> py_int (PBytes (content v)))"

text \<open>The body of \<open>for tag, node in list\<close> on \<open>(good, bad)\<close>.\<close>

definition tags_step ::
  "repo \<Rightarrow> cache \<Rightarrow> cache \<Rightarrow> int \<Rightarrow> pyval list list \<times> pyval list list \<Rightarrow> string \<times> string
     \<Rightarrow> error + pyval list list \<times> pyval list list" where
  "tags_step rp marks_cache mapping_cache mx st t =
     (let (good, bad) = st; (tag, nd) = t
      in if tag = ''tip'' then Inr (good, bad)
         else
           (case tag_rev mapping_cache nd of
              Inl e \<Rightarrow> Inl e
            | Inr rv \<Rightarrow>
                (let cache_sha1 = map_of marks_cache (fmt_d (rv + 1))
                 in case get_changeset rp (PInt rv) of
                      Inl e \<Rightarrow> Inl e
                    | Inr cs \<Rightarrow>
                        (let entry = [PBytes tag, PBytes (cs_branch cs), ref_val cache_sha1, PInt rv,
                                      PBytes (first_line (cs_desc cs)), PBytes (cs_user cs)]
                         in if rv > mx then Inr (good, bad @ [entry])
                            else Inr (good @ [entry], bad)))))"

definition get_tags ::
  "env \<Rightarrow> repo \<Rightarrow> cache \<Rightarrow> cache \<Rightarrow> int \<Rightarrow> error + pyval list list \<times> pyval list list" where
  "get_tags ev rp marks_cache mapping_cache mx =
     (case fold_err (tags_step rp marks_cache mapping_cache mx) ([], []) (tagslist rp) of
        Inl e \<Rightarrow> Inl e
      | Inr (good, bad) \<Rightarrow>
          (case py_sort good of
             Inl e \<Rightarrow> Inl e
           | Inr good1 \<Rightarrow>
               (case py_sort bad of
                  Inl e \<Rightarrow> Inl e
                | Inr bad1 \<Rightarrow> Inr (good1, bad1))))"

definition mangle_mark :: "string \<Rightarrow> error + string" where
  "mangle_mark mark = (case py_int (PBytes mark) of Inl e \<Rightarrow> Inl e | Inr i \<Rightarrow> Inr (fmt_d (i - 1)))"

section \<open>The script body\<close>

text \<open>
  \<open>parser.parse_args()\<close> of \<open>optparse\<close> yields the option values, \<open>None\<close> for a flag
  that was not given; the body starts from them. The two output streams are the lists
  of the texts written to them. The body ends by running to its end, by \<open>sys.exit\<close>, or
  by an exception nobody catches.
\<close>

record options =
  marksfile :: "string option"
  mappingfile :: "string option"
  headsfile :: "string option"
  statusfile :: "string option"
  repourl :: "string option"
  revision :: "int option"

record io =
  stdout :: "string list"
  stderr :: "string list"

datatype outcome = Finished | SysExit int | Uncaught error

definition nl :: string where
  "nl = [CHR 0x0A]"

definition tab :: string where
  "tab = [CHR 0x09]"

definition quote :: string where
  "quote = [CHR 0x27]"

definition stdout_write :: "string \<Rightarrow> io \<Rightarrow> io" where
  "stdout_write t s = s\<lparr>stdout := stdout s @ [t]\<rparr>"

definition stderr_write :: "string \<Rightarrow> io \<Rightarrow> io" where
  "stderr_write t s = s\<lparr>stderr := stderr s @ [t]\<rparr>"

text \<open>
  \<open>bail\<close>: the error line goes to \<open>sys.stderr\<close>; \<open>parser.print_help()\<close> is called with no
  file and \<open>optparse\<close> then writes the text to \<open>sys.stdout\<close>; \<open>sys.exit(2)\<close>.
\<close>

definition bail :: "env \<Rightarrow> string \<Rightarrow> io \<Rightarrow> io \<times> outcome" where
  "bail ev opt s =
     (stdout_write (usage_text ev) (stderr_write (''Error: No option '' @ opt @ '' given'' @ nl) s), SysExit 2)"

text \<open>\<open>x.decode("utf8")\<close>: only \<open>bytes\<close> has the method.\<close>

definition py_decode :: "env \<Rightarrow> pyval \<Rightarrow> error + string" where
  "py_decode ev v = (case v of PBytes b \<Rightarrow> decode_utf8 ev b | _ \<Rightarrow> Inl AttributeError)"

definition py_index :: "'a list \<Rightarrow> nat \<Rightarrow> error + 'a" where
  "py_index xs i = (if i < length xs then Inr (xs ! i) else Inl IndexError)"

definition field :: "env \<Rightarrow> pyval list \<Rightarrow> nat \<Rightarrow> error + string" where
  "field ev entry i = (case py_index entry i of Inl e \<Rightarrow> Inl e | Inr v \<Rightarrow> py_decode ev v)"

definition stale_line :: "env \<Rightarrow> string \<Rightarrow> error + string" where
  "stale_line ev br = (case decode_utf8 ev br of Inl e \<Rightarrow> Inl e | Inr b \<Rightarrow> Inr (tab @ b @ nl))"

definition tag_line :: "env \<Rightarrow> pyval list \<Rightarrow> error + string" where
  "tag_line ev tg =
     (case field ev tg 0 of Inl e \<Rightarrow> Inl e | Inr a \<Rightarrow>
      (case field ev tg 1 of Inl e \<Rightarrow> Inl e | Inr b \<Rightarrow>
       (case field ev tg 3 of Inl e \<Rightarrow> Inl e | Inr c \<Rightarrow>
          Inr (tab @ a @ '' on '' @ b @ '' (r'' @ c @ '')'' @ nl))))"

definition unchanged_line :: "env \<Rightarrow> pyval list \<Rightarrow> error + string" where
  "unchanged_line ev br =
     (case field ev br 0 of Inl e \<Rightarrow> Inl e | Inr a \<Rightarrow>
      (case field ev br 2 of Inl e \<Rightarrow> Inl e | Inr b \<Rightarrow>
         Inr (tab @ a @ '' (r'' @ b @ '')'' @ nl)))"

definition changed_line :: "env \<Rightarrow> pyval list \<Rightarrow> error + string" where
  "changed_line ev br =
     (case field ev br 0 of Inl e \<Rightarrow> Inl e | Inr a \<Rightarrow>
      (case field ev br 1 of Inl e \<Rightarrow> Inl e | Inr b \<Rightarrow>
       (case field ev br 2 of Inl e \<Rightarrow> Inl e | Inr c \<Rightarrow>
        (case field ev br 4 of Inl e \<Rightarrow> Inl e | Inr d \<Rightarrow>
         (case field ev br 3 of Inl e \<Rightarrow> Inl e | Inr f \<Rightarrow>
            Inr (tab @ '':'' @ a @ '' '' @ b @ nl @ tab @ tab @ ''(r'' @ c @ '': '' @ d @ '': '' @ f @ '')'' @ nl))))))"

text \<open>A \<open>for\<close> loop that writes one line per entry; what was written before an exception stays written.\<close>

fun emit_each :: "('a \<Rightarrow> error + string) \<Rightarrow> 'a list \<Rightarrow> io \<Rightarrow> io \<times> error option" where
  "emit_each f [] s = (s, None)"
| "emit_each f (x # xs) s =
     (case f x of Inl e \<Rightarrow> (s, Some e) | Inr l \<Rightarrow> emit_each f xs (stdout_write l s))"

definition report ::
  "env \<Rightarrow> string \<Rightarrow> string \<Rightarrow> int \<Rightarrow> string list \<Rightarrow> pyval list list \<Rightarrow> pyval list list
     \<Rightarrow> pyval list list \<Rightarrow> pyval list list \<Rightarrow> io \<Rightarrow> io \<times> outcome" where
  "report ev headsf statusf revn stale bad unchanged good changed s =
     (case emit_each (stale_line ev) stale (stdout_write (''Possibly stale branches:'' @ nl) s) of
        (s1, Some e) \<Rightarrow> (s1, Uncaught e)
      | (s1, None) \<Rightarrow>
     (case emit_each (tag_line ev) bad (stdout_write (''Possibly stale tags:'' @ nl) s1) of
        (s2, Some e) \<Rightarrow> (s2, Uncaught e)
      | (s2, None) \<Rightarrow>
     (case emit_each (unchanged_line ev) unchanged (stdout_write (''Unchanged branches:'' @ nl) s2) of
        (s3, Some e) \<Rightarrow> (s3, Uncaught e)
      | (s3, None) \<Rightarrow>
     (case emit_each (tag_line ev) good (stdout_write (''Unchanged tags:'' @ nl) s3) of
        (s4, Some e) \<Rightarrow> (s4, Uncaught e)
      | (s4, None) \<Rightarrow>
     (case emit_each (changed_line ev) changed
             (stdout_write (''Reset branches in '' @ quote @ headsf @ quote @ '' to:'' @ nl) s4) of
        (s5, Some e) \<Rightarrow> (s5, Uncaught e)
      | (s5, None) \<Rightarrow>
          (stdout_write (''Reset '' @ quote @ '':tip'' @ quote @ '' in '' @ quote @ statusf @ quote
                           @ '' to '' @ quote @ fmt_d revn @ quote @ nl) s5, Finished))))))"

text \<open>
  The script from the flag checks on. \<open>state_cache.get(b"tip", options.revision)\<close> is the
  cached text when the key is there and the integer \<open>options.revision\<close> otherwise.
\<close>

definition after_load :: "env \<Rightarrow> string \<Rightarrow> string \<Rightarrow> string \<Rightarrow> int \<Rightarrow> cache \<Rightarrow> cache \<Rightarrow> cache \<Rightarrow> cache \<Rightarrow> io \<Rightarrow> io \<times> outcome" where
  "after_load ev headsf statusf url revn heads_cache marks_cache state_cache mapping_cache s =
     (case py_int (case map_of state_cache ''tip'' of None \<Rightarrow> PInt revn | Some v \<Rightarrow> PBytes (content v)) of
        Inl e \<Rightarrow> (s, Uncaught e)
      | Inr tip \<Rightarrow>
          if revn + 1 > tip
          then (stderr_write (''Revision is beyond last revision imported: '' @ fmt_d revn @ ''>'' @ fmt_d tip @ nl) s,
                SysExit 1)
          else
            (case setup_repo ev url of
               Inl e \<Rightarrow> (s, Uncaught e)
             | Inr rp \<Rightarrow>
                 (case get_branches ev rp heads_cache marks_cache mapping_cache (revn + 1) of
                    Inl e \<Rightarrow> (s, Uncaught e)
                  | Inr (stale, changed, unchanged) \<Rightarrow>
                      (case get_tags ev rp marks_cache mapping_cache (revn + 1) of
                         Inl e \<Rightarrow> (s, Uncaught e)
                       | Inr (good, bad) \<Rightarrow>
                           report ev headsf statusf revn stale bad unchanged good changed s))))"

definition load_caches :: "env \<Rightarrow> string \<Rightarrow> string \<Rightarrow> string \<Rightarrow> string \<Rightarrow> string \<Rightarrow> int \<Rightarrow> io \<Rightarrow> io \<times> outcome" where
  "load_caches ev marksf mappingf headsf statusf url revn s =
     (case load_cache ev headsf None of
        Inl e \<Rightarrow> (s, Uncaught e)
      | Inr heads_cache \<Rightarrow>
     (case load_cache ev marksf (Some mangle_mark) of
        Inl e \<Rightarrow> (s, Uncaught e)
      | Inr marks_cache \<Rightarrow>
     (case load_cache ev statusf None of
        Inl e \<Rightarrow> (s, Uncaught e)
      | Inr state_cache \<Rightarrow>
     (case load_cache ev mappingf None of
        Inl e \<Rightarrow> (s, Uncaught e)
      | Inr mapping_cache \<Rightarrow>
          after_load ev headsf statusf url revn heads_cache marks_cache state_cache mapping_cache s))))"

definition main :: "env \<Rightarrow> options \<Rightarrow> io \<times> outcome" where
  "main ev opts =
     (let s0 = \<lparr>stdout = [], stderr = []\<rparr>
      in case marksfile opts of
           None \<Rightarrow> bail ev ''--marks option'' s0
         | Some marksf \<Rightarrow>
      (case mappingfile opts of
           None \<Rightarrow> bail ev ''--mapping option'' s0
         | Some mappingf \<Rightarrow>
      (case headsfile opts of
           None \<Rightarrow> bail ev ''--heads option'' s0
         | Some headsf \<Rightarrow>
      (case statusfile opts of
           None \<Rightarrow> bail ev ''--status option'' s0
         | Some statusf \<Rightarrow>
      (case repourl opts of
           None \<Rightarrow> bail ev ''--repo option'' s0
         | Some url \<Rightarrow>
      (case revision opts of
           None \<Rightarrow> bail ev ''-R/--revision'' s0
         | Some revn \<Rightarrow> load_caches ev marksf mappingf headsf statusf url revn s0))))))"

section \<open>A small repository and its caches\<close>

text \<open>
  Revisions 0 to 5: the chain 0, 1, 2, 3 on branch \<open>default\<close> and a second line 0, 4, 5 on
  branch \<open>stable\<close>. As in Mercurial, every revision has two parent slots, the null
  revision \<open>-1\<close> filling an empty one, and \<open>nullid\<close> is the node of \<open>-1\<close>. Tag \<open>v1\<close> is on
  revision 2 and tag \<open>v2\<close> on revision 5.
\<close>

definition ex_node :: "int \<Rightarrow> string" where
  "ex_node r = (if r = -1 then nullid else replicate 20 (char_of (nat (r + 1))))"

definition ex_parents :: "int \<Rightarrow> error + int list" where
  "ex_parents r =
     (if r = 0 then Inr [-1, -1] else if r = 1 then Inr [0, -1] else if r = 2 then Inr [1, -1]
      else if r = 3 then Inr [2, -1] else if r = 4 then Inr [0, -1] else if r = 5 then Inr [4, -1]
      else Inl IndexError)"

definition ex_rev :: "string \<Rightarrow> error + int" where
  "ex_rev n = (case find (\<lambda>r. ex_node r = n) [-1, 0, 1, 2, 3, 4, 5] of None \<Rightarrow> Inl LookupError | Some r \<Rightarrow> Inr r)"

definition ex_changeset :: "pyval \<Rightarrow> error + changeset" where
  "ex_changeset v =
     (case py_int v of
        Inl e \<Rightarrow> Inl e
      | Inr r \<Rightarrow>
          if 0 \<le> r \<and> r < 4 then Inr \<lparr>cs_user = ''alice'', cs_desc = ''work'', cs_branch = ''default''\<rparr>
          else if 4 \<le> r \<and> r < 6 then Inr \<lparr>cs_user = ''bob'', cs_desc = ''fix'', cs_branch = ''stable''\<rparr>
          else Inl LookupError)"

definition ex_repo :: repo where
  "ex_repo = \<lparr> changelog_count = 6, changelog_rev = ex_rev,
     changelog_node = (\<lambda>r. if -1 \<le> r \<and> r < 6 then Inr (ex_node r) else Inl IndexError),
     changelog_parentrevs = ex_parents,
     tagslist = [(''v1'', ex_node 2), (''v2'', ex_node 5), (''tip'', ex_node 5)],
     get_changeset = ex_changeset \<rparr>"

definition ex_heads_cache :: cache where
  "ex_heads_cache = [(''default'', BytesRef 1 ''aaaa''), (''stable'', BytesRef 2 ''bbbb'')]"

definition ex_marks_cache :: cache where
  "ex_marks_cache = [(''3'', BytesRef 3 ''cccc''), (''4'', BytesRef 4 ''aaaa''), (''6'', BytesRef 5 ''bbbb'')]"

definition ex_mapping_cache :: cache where
  "ex_mapping_cache = [(hexlify (ex_node 2), BytesRef 6 ''2''), (hexlify (ex_node 5), BytesRef 7 ''5'')]"

definition ex_state_cache :: cache where
  "ex_state_cache = [(''tip'', BytesRef 8 ''50'')]"

text \<open>
  \<open>git rev-parse\<close> answers with a new bytes object each time: its content is the
  identifier of the branch, its identity is that of no cached value.
\<close>

definition ex_git_sha1 :: "string \<Rightarrow> error + bytes_ref option" where
  "ex_git_sha1 br =
     (if br = ''default'' then Inr (Some (BytesRef 100 ''aaaa''))
      else if br = ''stable'' then Inr (Some (BytesRef 101 ''bbbb''))
      else Inr None)"

definition ex_load_cache :: "string \<Rightarrow> (string \<Rightarrow> error + string) option \<Rightarrow> error + cache" where
  "ex_load_cache f k =
     (if f = ''heads'' then Inr ex_heads_cache
      else if f = ''marks'' then Inr ex_marks_cache
      else if f = ''status'' then Inr ex_state_cache
      else if f = ''mapping'' then Inr ex_mapping_cache
      else Inr [])"

definition ex_env :: env where
  "ex_env = \<lparr> get_git_sha1 = ex_git_sha1, load_cache = ex_load_cache,
     setup_repo = (\<lambda>u. Inr ex_repo), decode_utf8 = Inr,
     usage_text = ''Usage: hg-reset.py [options]'' \<rparr>"

definition ex_options :: "int \<Rightarrow> options" where
  "ex_options r = \<lparr> marksfile = Some ''marks'', mappingfile = Some ''mapping'', headsfile = Some ''heads'',
     statusfile = Some ''status'', repourl = Some ''repo'', revision = Some r \<rparr>"

text \<open>A repository whose tag \<open>rel\<close> is mapped to revision 10 by the mapping cache.\<close>

definition ex_tag_repo :: repo where
  "ex_tag_repo = ex_repo\<lparr> tagslist := [(''rel'', ex_node 3), (''tip'', ex_node 5)],
     get_changeset := (\<lambda>v. Inr \<lparr>cs_user = ''alice'', cs_desc = ''work'', cs_branch = ''default''\<rparr>) \<rparr>"

definition ex_tag_mapping :: cache where
  "ex_tag_mapping = [(hexlify (ex_node 3), BytesRef 9 ''10'')]"

section \<open>Decimal text and integers\<close>

text \<open>\<open>int\<close> reads back what \<open>b"%d"\<close> wrote.\<close>

lemma is_digit_digit_char: "d < 10 \<Longrightarrow> is_digit (digit_char d)"
  by (simp add: is_digit_def digit_char_def)

lemma digit_val_digit_char: "d < 10 \<Longrightarrow> digit_val (digit_char d) = d"
  by (simp add: digit_val_def digit_char_def)

lemma is_digit_not_space: "is_digit c \<Longrightarrow> \<not> is_space c"
  by (auto simp: is_digit_def is_space_def)

lemma is_digit_not_underscore: "is_digit c \<Longrightarrow> c \<noteq> CHR ''_''"
  by (auto simp: is_digit_def)

lemma is_digit_not_sign: "is_digit c \<Longrightarrow> c \<noteq> CHR ''-'' \<and> c \<noteq> CHR ''+''"
  by (auto simp: is_digit_def)

lemma digits_nat_digits: "\<forall>c \<in> set (digits_nat n). is_digit c"
proof (induction n rule: digits_nat.induct)
  case (1 n)
  show ?case
  proof (cases "n < 10")
    case True
    then show ?thesis by (subst digits_nat.simps) (simp add: is_digit_digit_char)
  next
    case False
    with 1 show ?thesis by (subst digits_nat.simps) (simp add: is_digit_digit_char)
  qed
qed

lemma digits_nat_nonempty: "digits_nat n \<noteq> []"
  by (subst digits_nat.simps) simp

lemma digits_val_all_digits:
  "s \<noteq> [] \<Longrightarrow> \<forall>c \<in> set s. is_digit c \<Longrightarrow> digits_val acc s = Some (foldl (\<lambda>a c. a * 10 + digit_val c) acc s)"
proof (induction acc s rule: digits_val.induct)
  case (1 acc)
  then show ?case by simp
next
  case (2 acc c)
  then show ?case by simp
next
  case (3 acc c d ds)
  then show ?case by (simp add: is_digit_not_underscore)
qed

lemma foldl_digits_nat:
  "foldl (\<lambda>a c. a * 10 + digit_val c) acc (digits_nat n) = acc * 10 ^ length (digits_nat n) + n"
proof (induction n arbitrary: acc rule: digits_nat.induct)
  case (1 n)
  show ?case
  proof (cases "n < 10")
    case True
    then show ?thesis by (subst (1 2) digits_nat.simps) (simp add: digit_val_digit_char)
  next
    case False
    have "foldl (\<lambda>a c. a * 10 + digit_val c) acc (digits_nat n)
        = foldl (\<lambda>a c. a * 10 + digit_val c) acc (digits_nat (n div 10)) * 10 + n mod 10"
      using False by (subst digits_nat.simps) (simp add: digit_val_digit_char)
    also have "\<dots> = (acc * 10 ^ length (digits_nat (n div 10)) + n div 10) * 10 + n mod 10"
      using 1 False by simp
    also have "\<dots> = acc * 10 ^ length (digits_nat n) + n"
      using False by (subst (2) digits_nat.simps) (simp add: algebra_simps)
    finally show ?thesis .
  qed
qed

lemma digits_val_digits_nat: "digits_val 0 (digits_nat n) = Some n"
  by (simp add: digits_val_all_digits digits_nat_digits digits_nat_nonempty foldl_digits_nat)

lemma dropWhile_rev_last: "s \<noteq> [] \<Longrightarrow> \<not> P (last s) \<Longrightarrow> dropWhile P (rev s) = rev s"
  by (cases s rule: rev_cases) auto

lemma strip_id: "s \<noteq> [] \<Longrightarrow> \<not> is_space (hd s) \<Longrightarrow> \<not> is_space (last s) \<Longrightarrow> strip s = s"
proof -
  assume a: "s \<noteq> []" "\<not> is_space (hd s)" "\<not> is_space (last s)"
  have "dropWhile is_space s = s"
    using a by (cases s) auto
  then show ?thesis
    using a by (simp add: strip_def dropWhile_rev_last)
qed

lemma strip_digits_nat: "strip (digits_nat n) = digits_nat n"
proof -
  have "hd (digits_nat n) \<in> set (digits_nat n)" "last (digits_nat n) \<in> set (digits_nat n)"
    using digits_nat_nonempty by simp_all
  then show ?thesis
    using digits_nat_digits [of n] digits_nat_nonempty [of n] by (intro strip_id) (auto dest: is_digit_not_space)
qed

lemma strip_minus_digits_nat: "strip (CHR ''-'' # digits_nat n) = CHR ''-'' # digits_nat n"
proof -
  have "last (digits_nat n) \<in> set (digits_nat n)"
    using digits_nat_nonempty by simp
  then have "\<not> is_space (last (CHR ''-'' # digits_nat n))"
    using digits_nat_digits [of n] digits_nat_nonempty [of n] by (auto dest: is_digit_not_space)
  moreover have "\<not> is_space (hd (CHR ''-'' # digits_nat n))"
    by (simp add: is_space_def)
  ultimately show ?thesis
    by (intro strip_id) simp_all
qed

lemma parse_int_fmt_d: "parse_int (fmt_d i) = Inr i"
proof (cases "i < 0")
  case True
  then show ?thesis
    by (simp add: parse_int_def fmt_d_def strip_minus_digits_nat digits_val_digits_nat)
next
  case False
  obtain c cs where eq: "digits_nat (nat i) = c # cs"
    using digits_nat_nonempty [of "nat i"] by (cases "digits_nat (nat i)") auto
  have "is_digit c"
    using digits_nat_digits [of "nat i"] eq by simp
  then have "c \<noteq> CHR ''-''" "c \<noteq> CHR ''+''"
    using is_digit_not_sign by auto
  moreover have "digits_val 0 (c # cs) = Some (nat i)"
    using digits_val_digits_nat [of "nat i"] eq by simp
  moreover have "strip (c # cs) = c # cs"
    using strip_digits_nat [of "nat i"] eq by simp
  ultimately show ?thesis
    using False by (simp add: parse_int_def fmt_d_def eq)
qed

lemma py_int_fmt_d: "py_int (PBytes (fmt_d i)) = Inr i"
  by (simp add: parse_int_fmt_d)

section \<open>Properties of the Head Finder\<close>

lemma set_dict_set: "set (dict_set k d) = insert k (set d)"
  by (auto simp: dict_set_def)

lemma set_dict_del: "set (dict_del k d) = set d - {k}"
  by (simp add: dict_del_def)

lemma heads_parent_heads_subset:
  "heads_parent S r p (R, H) = (R', H') \<Longrightarrow> set H' \<subseteq> insert r (set H)"
  by (auto simp: heads_parent_def set_dict_set set_dict_del split: if_splits)

lemma heads_parents_heads_subset:
  "foldl (\<lambda>s p. heads_parent S r p s) (R, H) ps = (R', H') \<Longrightarrow> set H' \<subseteq> insert r (set H)"
proof (induction ps arbitrary: R H)
  case Nil
  then show ?case by auto
next
  case (Cons p ps)
  obtain R1 H1 where st: "heads_parent S r p (R, H) = (R1, H1)"
    by (cases "heads_parent S r p (R, H)")
  with Cons.prems have "foldl (\<lambda>s p. heads_parent S r p s) (R1, H1) ps = (R', H')"
    by simp
  then have "set H' \<subseteq> insert r (set H1)"
    by (rule Cons.IH)
  moreover have "set H1 \<subseteq> insert r (set H)"
    using st by (rule heads_parent_heads_subset)
  ultimately show ?case by blast
qed

lemma heads_rev_heads_subset:
  "heads_rev rp S (R, H) r = Inr (R', H') \<Longrightarrow> set H' \<subseteq> insert r (set H)"
  by (auto simp: heads_rev_def split: sum.splits dest: heads_parents_heads_subset)

lemma heads_scan_heads_subset:
  "heads_scan rp S (R, H) rs = Inr (R', H') \<Longrightarrow> set H' \<subseteq> set H \<union> set rs"
proof (induction rs arbitrary: R H)
  case Nil
  then show ?case by simp
next
  case (Cons r rs)
  from Cons.prems obtain R1 H1 where
    st: "heads_rev rp S (R, H) r = Inr (R1, H1)" and rest: "heads_scan rp S (R1, H1) rs = Inr (R', H')"
    by (auto split: sum.splits)
  from rest have "set H' \<subseteq> set H1 \<union> set rs" by (rule Cons.IH)
  moreover from st have "set H1 \<subseteq> insert r (set H)" by (rule heads_rev_heads_subset)
  ultimately show ?case by auto
qed

lemma set_py_range: "set (py_range a b) = {r. a \<le> r \<and> r < b}"
  by (auto simp: py_range_def)

lemma heads_dicts_bound:
  assumes "heads_dicts rp start stop mx = Inr (s, R, H)" and "r \<in> set H"
  shows "r = s \<or> (s < r \<and> r < (case mx of None \<Rightarrow> changelog_count rp | Some m \<Rightarrow> m))"
proof -
  from assms(1) have "heads_scan rp (fromkeys (case map_err (changelog_rev rp) (case stop of None \<Rightarrow> [] | Some ns \<Rightarrow> ns) of Inr srs \<Rightarrow> srs | Inl e \<Rightarrow> []))
      ([s], [s]) (py_range (s + 1) (case mx of None \<Rightarrow> changelog_count rp | Some m \<Rightarrow> m)) = Inr (R, H)"
    by (auto simp: heads_dicts_def Let_def split: sum.splits)
  then have "set H \<subseteq> set [s] \<union> set (py_range (s + 1) (case mx of None \<Rightarrow> changelog_count rp | Some m \<Rightarrow> m))"
    by (rule heads_scan_heads_subset)
  with assms(2) show ?thesis
    by (auto simp: set_py_range)
qed

lemma heads_dicts_startrev:
  "heads_dicts rp start stop mx = Inr (s, R, H) \<Longrightarrow> changelog_rev rp (case start of None \<Rightarrow> nullid | Some n \<Rightarrow> n) = Inr s"
  by (auto simp: heads_dicts_def Let_def split: sum.splits)

lemma map_err_Inr_set:
  "map_err f xs = Inr ys \<Longrightarrow> y \<in> set ys \<Longrightarrow> \<exists>x \<in> set xs. f x = Inr y"
proof (induction xs arbitrary: ys)
  case Nil
  then show ?case by simp
next
  case (Cons x xs)
  then show ?case by (fastforce split: sum.splits)
qed

text \<open>
  C1 (as amended). One visit of a parent \<open>p\<close> of \<open>r\<close> (\<open>p\<close> other than \<open>r\<close>): when \<open>p\<close> is
  reachable, \<open>r\<close> is marked a candidate head, whether or not \<open>r\<close> is a stop revision; \<open>r\<close>
  becomes reachable only when it is not a stop revision, and for a stop revision (or an
  unreachable parent) the reachable set stays as it was; when \<open>p\<close> is a head and not a
  stop revision, \<open>p\<close> is deleted from the head set.
\<close>

theorem heads_parent_step:
  assumes "p \<noteq> r" and "heads_parent stoprevs r p (reachable, hs) = (reachable', hs')"
  shows "(p \<in> set reachable \<longrightarrow> r \<in> set hs') \<and>
         (p \<in> set reachable \<and> r \<notin> set stoprevs \<longrightarrow> r \<in> set reachable') \<and>
         (r \<in> set stoprevs \<or> p \<notin> set reachable \<longrightarrow> reachable' = reachable) \<and>
         (p \<in> set hs \<and> p \<notin> set stoprevs \<longrightarrow> p \<notin> set hs')"
  using assms by (auto simp: heads_parent_def set_dict_set set_dict_del split: if_splits)

theorem heads_parent_step_witness:
  "(0::int) \<noteq> 1 \<and> heads_parent [] 1 0 ([-1, 0], [0]) = ([-1, 0, 1], [1]) \<and>
   (1::int) \<in> set [1] \<and> (1::int) \<in> set [-1, 0, 1] \<and> (0::int) \<notin> set [1]"
proof -
  have ne: "(0::int) \<noteq> 1" by simp
  have st: "heads_parent [] 1 0 ([-1, 0], [0]) = ([-1, 0, 1], [1])"
    by (simp add: heads_parent_def dict_set_def dict_del_def)
  show ?thesis
    using heads_parent_step [OF ne st] st by simp
qed

text \<open>
  C1 as stated fails: parent 0 is reachable and revision 1 is a stop revision; after the
  visit revision 1 is not reachable, and it is a head.
\<close>

theorem heads_stop_revision_not_reachable:
  "(0::int) \<in> set [-1, 0] \<and> (1::int) \<in> set [1] \<and>
   heads_parent [1] 1 0 ([-1, 0], [0]) = ([-1, 0], [1]) \<and>
   (1::int) \<notin> set (fst (heads_parent [1] 1 0 ([-1, 0], [0]))) \<and>
   (1::int) \<in> set (snd (heads_parent [1] 1 0 ([-1, 0], [0])))"
  by (simp add: heads_parent_def dict_set_def dict_del_def)

text \<open>
  C5 (as amended). Every pair \<open>heads\<close> returns carries the decimal text of a revision
  that is strictly below the ceiling or is the start revision itself.
\<close>

theorem heads_below_max_or_start:
  assumes "heads rp start stop mx = Inr res" and "(n, t) \<in> set res"
  shows "\<exists>r. t = fmt_d r \<and> py_int (PBytes t) = Inr r \<and> changelog_node rp r = Inr n \<and>
             (r < (case mx of None \<Rightarrow> changelog_count rp | Some m \<Rightarrow> m) \<or>
              changelog_rev rp (case start of None \<Rightarrow> nullid | Some n \<Rightarrow> n) = Inr r)"
proof -
  from assms(1) obtain s R H where
    d: "heads_dicts rp start stop mx = Inr (s, R, H)" and
    m: "map_err (\<lambda>r. case changelog_node rp r of Inl e \<Rightarrow> Inl e | Inr n \<Rightarrow> Inr (n, fmt_d r)) H = Inr res"
    by (auto simp: heads_def split: sum.splits)
  from map_err_Inr_set [OF m assms(2)] obtain r where
    r: "r \<in> set H" and nt: "(case changelog_node rp r of Inl e \<Rightarrow> Inl e | Inr n \<Rightarrow> Inr (n, fmt_d r)) = Inr (n, t)"
    by blast
  from nt have "t = fmt_d r" "changelog_node rp r = Inr n"
    by (auto split: sum.splits)
  moreover from heads_dicts_bound [OF d r] heads_dicts_startrev [OF d]
  have "r < (case mx of None \<Rightarrow> changelog_count rp | Some m \<Rightarrow> m) \<or>
        changelog_rev rp (case start of None \<Rightarrow> nullid | Some n \<Rightarrow> n) = Inr r"
    by auto
  ultimately show ?thesis
    by (intro exI [of _ r]) (simp add: parse_int_fmt_d)
qed

theorem heads_below_max_or_start_witness:
  "heads ex_repo None None (Some 4) = Inr [(ex_node 3, ''3'')] \<and>
   (\<exists>r. ''3'' = fmt_d r \<and> py_int (PBytes ''3'') = Inr r \<and> changelog_node ex_repo r = Inr (ex_node 3) \<and>
        (r < 4 \<or> changelog_rev ex_repo nullid = Inr r))"
proof -
  have h: "heads ex_repo None None (Some 4) = Inr [(ex_node 3, ''3'')]"
    by code_simp
  have m: "(ex_node 3, ''3'') \<in> set [(ex_node 3, ''3'')]"
    by simp
  show ?thesis
    using heads_below_max_or_start [OF h m] h by simp
qed

text \<open>
  C5 as stated fails: started at revision 5 with ceiling 3, the scan is empty and the
  head set is revision 5 alone, which is not below 3.
\<close>

theorem heads_start_not_below_max:
  "heads ex_repo (Some (ex_node 5)) None (Some 3) = Inr [(ex_node 5, ''5'')] \<and>
   py_int (PBytes ''5'') = Inr 5 \<and> \<not> (5::int) < 3"
  by code_simp

text \<open>
  C6. When the ceiling is at most the start revision plus one (and the backend resolves
  the start node, the stop nodes and the node of the start revision), the range of the
  scan is empty, both dictionaries keep their seed, and \<open>heads\<close> returns the start
  revision alone.
\<close>

theorem heads_empty_scan:
  assumes "map_err (changelog_rev rp) (case stop of None \<Rightarrow> [] | Some ns \<Rightarrow> ns) = Inr srs"
    and "changelog_rev rp (case start of None \<Rightarrow> nullid | Some n \<Rightarrow> n) = Inr s"
    and "(case mx of None \<Rightarrow> changelog_count rp | Some m \<Rightarrow> m) \<le> s + 1"
    and "changelog_node rp s = Inr n"
  shows "py_range (s + 1) (case mx of None \<Rightarrow> changelog_count rp | Some m \<Rightarrow> m) = [] \<and>
         heads_dicts rp start stop mx = Inr (s, [s], [s]) \<and>
         heads rp start stop mx = Inr [(n, fmt_d s)]"
proof -
  have e: "py_range (s + 1) (case mx of None \<Rightarrow> changelog_count rp | Some m \<Rightarrow> m) = []"
    using assms(3) by (simp add: py_range_def)
  have d: "heads_dicts rp start stop mx = Inr (s, [s], [s])"
    using assms(1,2) e by (simp add: heads_dicts_def Let_def)
  show ?thesis
    using e d assms(4) by (simp add: heads_def)
qed

theorem heads_empty_scan_witness:
  "map_err (changelog_rev ex_repo) [ex_node 1] = Inr [1] \<and>
   changelog_rev ex_repo (ex_node 2) = Inr 2 \<and> (3::int) \<le> 2 + 1 \<and>
   changelog_node ex_repo 2 = Inr (ex_node 2) \<and>
   py_range (2 + 1) 3 = [] \<and>
   heads_dicts ex_repo (Some (ex_node 2)) (Some [ex_node 1]) (Some 3) = Inr (2, [2], [2]) \<and>
   heads ex_repo (Some (ex_node 2)) (Some [ex_node 1]) (Some 3) = Inr [(ex_node 2, ''2'')]"
proof -
  have a: "map_err (changelog_rev ex_repo) (case Some [ex_node 1] of None \<Rightarrow> [] | Some ns \<Rightarrow> ns) = Inr [1]"
    by code_simp
  have b: "changelog_rev ex_repo (case Some (ex_node 2) of None \<Rightarrow> nullid | Some n \<Rightarrow> n) = Inr 2"
    by code_simp
  have c: "(case Some 3 of None \<Rightarrow> changelog_count ex_repo | Some m \<Rightarrow> m) \<le> (2::int) + 1"
    by simp
  have d: "changelog_node ex_repo 2 = Inr (ex_node 2)"
    by (simp add: ex_repo_def)
  have f: "fmt_d 2 = ''2''"
    by code_simp
  show ?thesis
    using heads_empty_scan [OF a b c d] a b d f by simp
qed

section \<open>Properties of the sort\<close>

text \<open>A sort that returns has rearranged its list.\<close>

lemma insort_py_mset: "insort_py x ys = Inr zs \<Longrightarrow> mset zs = add_mset x (mset ys)"
proof (induction ys arbitrary: zs)
  case Nil
  then show ?case by auto
next
  case (Cons y ys)
  then show ?case
    by (auto split: sum.splits if_splits)
qed

lemma sort_into_mset: "sort_into acc xs = Inr zs \<Longrightarrow> mset zs = mset acc + mset xs"
proof (induction xs arbitrary: acc)
  case Nil
  then show ?case by simp
next
  case (Cons x xs)
  from Cons.prems obtain acc1 where
    i: "insort_py x acc = Inr acc1" and r: "sort_into acc1 xs = Inr zs"
    by (auto split: sum.splits)
  from Cons.IH [OF r] insort_py_mset [OF i] show ?case
    by simp
qed

lemma py_sort_mset: "py_sort xs = Inr ys \<Longrightarrow> mset ys = mset xs"
  by (auto simp: py_sort_def dest: sort_into_mset)

lemma py_sort_set: "py_sort xs = Inr ys \<Longrightarrow> set ys = set xs"
  by (metis py_sort_mset set_mset_mset)

lemma py_sort_count: "py_sort xs = Inr ys \<Longrightarrow> length (filter P ys) = length (filter P xs)"
proof -
  assume "py_sort xs = Inr ys"
  then have "mset ys = mset xs" by (rule py_sort_mset)
  then have "filter_mset P (mset ys) = filter_mset P (mset xs)" by simp
  then have "mset (filter P ys) = mset (filter P xs)" by simp
  then show ?thesis by (rule mset_eq_length)
qed

text \<open>The sort raises only when it compares two different records at a position where \<open><\<close> is undefined; records with different \<open>bytes\<close> in front never get there.\<close>

lemma list_lt_same: "list_lt x x = Inr False"
  by (induction x) auto

lemma list_lt_first:
  "x \<noteq> [] \<Longrightarrow> y \<noteq> [] \<Longrightarrow> x ! 0 = PBytes a \<Longrightarrow> y ! 0 = PBytes b \<Longrightarrow> a \<noteq> b \<Longrightarrow> list_lt x y = Inr (bytes_lt a b)"
  by (cases x; cases y) auto

lemma insort_py_returns:
  "\<forall>y \<in> set ys. \<exists>r. list_lt x y = Inr r \<Longrightarrow> \<exists>zs. insort_py x ys = Inr zs"
proof (induction ys)
  case Nil
  then show ?case by simp
next
  case (Cons y ys)
  from Cons.prems obtain r where r: "list_lt x y = Inr r" by auto
  from Cons.prems have "\<forall>y \<in> set ys. \<exists>r. list_lt x y = Inr r" by simp
  from Cons.IH [OF this] obtain zs where "insort_py x ys = Inr zs" ..
  with r show ?case by simp
qed

lemma sort_into_returns:
  "\<forall>x \<in> set acc \<union> set xs. \<forall>y \<in> set acc \<union> set xs. \<exists>r. list_lt x y = Inr r \<Longrightarrow> \<exists>zs. sort_into acc xs = Inr zs"
proof (induction xs arbitrary: acc)
  case Nil
  then show ?case by simp
next
  case (Cons x xs)
  from Cons.prems have "\<forall>y \<in> set acc. \<exists>r. list_lt x y = Inr r" by simp
  from insort_py_returns [OF this] obtain acc1 where a: "insort_py x acc = Inr acc1" ..
  from insort_py_mset [OF a] have "set_mset (mset acc1) = set_mset (add_mset x (mset acc))" by simp
  then have "set acc1 = insert x (set acc)" by simp
  with Cons.prems have "\<forall>x \<in> set acc1 \<union> set xs. \<forall>y \<in> set acc1 \<union> set xs. \<exists>r. list_lt x y = Inr r"
    by simp
  from Cons.IH [OF this] a show ?case by simp
qed

lemma py_sort_returns:
  assumes "\<forall>e \<in> set xs. e \<noteq> [] \<and> (\<exists>a. e ! 0 = PBytes a)"
    and "\<forall>x \<in> set xs. \<forall>y \<in> set xs. x ! 0 = y ! 0 \<longrightarrow> x = y"
  shows "\<exists>zs. py_sort xs = Inr zs"
proof -
  have "\<exists>r. list_lt x y = Inr r" if "x \<in> set xs" "y \<in> set xs" for x y
  proof (cases "x = y")
    case True
    then have "list_lt x y = Inr False" by (simp add: list_lt_same)
    then show ?thesis ..
  next
    case False
    from assms(1) that obtain a b where ab: "x \<noteq> []" "y \<noteq> []" "x ! 0 = PBytes a" "y ! 0 = PBytes b"
      by blast
    with assms(2) that False have "a \<noteq> b" by auto
    from list_lt_first [OF ab this] show ?thesis ..
  qed
  then show ?thesis
    unfolding py_sort_def by (intro sort_into_returns) simp
qed

lemma filter_le1_unique:
  "length (filter P xs) \<le> 1 \<Longrightarrow> x \<in> set xs \<Longrightarrow> y \<in> set xs \<Longrightarrow> P x \<Longrightarrow> P y \<Longrightarrow> x = y"
proof (induction xs)
  case Nil
  then show ?case by simp
next
  case (Cons z zs)
  show ?case
  proof (cases "P z")
    case True
    with Cons.prems(1) have "filter P zs = []" by simp
    then have "\<forall>w \<in> set zs. \<not> P w" by (simp add: filter_empty_conv)
    with Cons.prems show ?thesis by auto
  next
    case False
    with Cons show ?thesis by auto
  qed
qed

section \<open>Properties of the Tag Classifier\<close>

lemma tags_step_cases:
  assumes "tags_step rp mc pc mx (g, b) (tag, nd) = Inr (g', b')"
  shows "(tag = ''tip'' \<and> g' = g \<and> b' = b) \<or>
         (tag \<noteq> ''tip'' \<and> (\<exists>rv e. tag_rev pc nd = Inr rv \<and> e ! 0 = PBytes tag \<and> e ! 3 = PInt rv \<and>
            ((rv > mx \<and> g' = g \<and> b' = b @ [e]) \<or> (\<not> rv > mx \<and> g' = g @ [e] \<and> b' = b))))"
  using assms by (auto simp: tags_step_def Let_def split: sum.splits if_splits)

lemma tags_fold_names:
  "fold_err (tags_step rp mc pc mx) (g, b) xs = Inr (g', b') \<Longrightarrow>
     ((\<exists>e \<in> set b'. e ! 0 = PBytes tag) \<longleftrightarrow>
        (\<exists>e \<in> set b. e ! 0 = PBytes tag) \<or>
        (\<exists>nd rv. (tag, nd) \<in> set xs \<and> tag \<noteq> ''tip'' \<and> tag_rev pc nd = Inr rv \<and> rv > mx)) \<and>
     ((\<exists>e \<in> set g'. e ! 0 = PBytes tag) \<longleftrightarrow>
        (\<exists>e \<in> set g. e ! 0 = PBytes tag) \<or>
        (\<exists>nd rv. (tag, nd) \<in> set xs \<and> tag \<noteq> ''tip'' \<and> tag_rev pc nd = Inr rv \<and> \<not> rv > mx))"
proof (induction xs arbitrary: g b)
  case Nil
  then show ?case by simp
next
  case (Cons x xs)
  obtain t n where x: "x = (t, n)" by (cases x)
  from Cons.prems(1) x obtain g1 b1 where
    s: "tags_step rp mc pc mx (g, b) (t, n) = Inr (g1, b1)" and
    r: "fold_err (tags_step rp mc pc mx) (g1, b1) xs = Inr (g', b')"
    by (auto split: sum.splits)
  have hd_split: "(\<exists>nd rv. (tag, nd) \<in> set (x # xs) \<and> tag \<noteq> ''tip'' \<and> tag_rev pc nd = Inr rv \<and> P rv) \<longleftrightarrow>
      (tag = t \<and> t \<noteq> ''tip'' \<and> (\<exists>rv. tag_rev pc n = Inr rv \<and> P rv)) \<or>
      (\<exists>nd rv. (tag, nd) \<in> set xs \<and> tag \<noteq> ''tip'' \<and> tag_rev pc nd = Inr rv \<and> P rv)" for P
    unfolding x by auto
  note ih = Cons.IH [OF r]
  from tags_step_cases [OF s] consider
      (tip) "t = ''tip''" "g1 = g" "b1 = b"
    | (bad) rv e where "t \<noteq> ''tip''" "tag_rev pc n = Inr rv" "e ! 0 = PBytes t" "rv > mx" "g1 = g" "b1 = b @ [e]"
    | (good) rv e where "t \<noteq> ''tip''" "tag_rev pc n = Inr rv" "e ! 0 = PBytes t" "\<not> rv > mx" "g1 = g @ [e]" "b1 = b"
    by blast
  then show ?case
  proof cases
    case tip
    with ih show ?thesis
      unfolding hd_split by simp
  next
    case bad
    have "(\<exists>e \<in> set b1. e ! 0 = PBytes tag) \<longleftrightarrow> (\<exists>e \<in> set b. e ! 0 = PBytes tag) \<or> tag = t"
      using bad(3,6) by auto
    with ih bad show ?thesis
      unfolding hd_split by auto
  next
    case good
    have "(\<exists>e \<in> set g1. e ! 0 = PBytes tag) \<longleftrightarrow> (\<exists>e \<in> set g. e ! 0 = PBytes tag) \<or> tag = t"
      using good(3,5) by auto
    with ih good show ?thesis
      unfolding hd_split by auto
  qed
qed

lemma tags_fold_mono:
  "fold_err (tags_step rp mc pc mx) (g, b) xs = Inr (g', b') \<Longrightarrow> set g \<subseteq> set g' \<and> set b \<subseteq> set b'"
proof (induction xs arbitrary: g b)
  case Nil
  then show ?case by simp
next
  case (Cons x xs)
  obtain t n where x: "x = (t, n)" by (cases x)
  from Cons.prems(1) x obtain g1 b1 where
    s: "tags_step rp mc pc mx (g, b) (t, n) = Inr (g1, b1)" and
    r: "fold_err (tags_step rp mc pc mx) (g1, b1) xs = Inr (g', b')"
    by (auto split: sum.splits)
  from tags_step_cases [OF s] have "set g \<subseteq> set g1 \<and> set b \<subseteq> set b1"
    by auto
  with Cons.IH [OF r] show ?case
    by blast
qed

lemma tags_fold_recorded:
  "fold_err (tags_step rp mc pc mx) (g, b) xs = Inr (g', b') \<Longrightarrow> (tag, nd) \<in> set xs \<Longrightarrow> tag \<noteq> ''tip''
     \<Longrightarrow> \<exists>rv. tag_rev pc nd = Inr rv \<and> (\<exists>e \<in> set g' \<union> set b'. e ! 0 = PBytes tag \<and> e ! 3 = PInt rv)"
proof (induction xs arbitrary: g b)
  case Nil
  then show ?case by simp
next
  case (Cons x xs)
  obtain t n where x: "x = (t, n)" by (cases x)
  from Cons.prems(1) x obtain g1 b1 where
    s: "tags_step rp mc pc mx (g, b) (t, n) = Inr (g1, b1)" and
    r: "fold_err (tags_step rp mc pc mx) (g1, b1) xs = Inr (g', b')"
    by (auto split: sum.splits)
  show ?case
  proof (cases "(tag, nd) = (t, n)")
    case True
    with tags_step_cases [OF s] Cons.prems(3) obtain rv e where
      rv: "tag_rev pc nd = Inr rv" and e: "e ! 0 = PBytes tag" "e ! 3 = PInt rv" "e \<in> set g1 \<union> set b1"
      by auto
    from tags_fold_mono [OF r] e(3) have "e \<in> set g' \<union> set b'"
      by blast
    with rv e show ?thesis
      by blast
  next
    case False
    with Cons.prems(2) x have "(tag, nd) \<in> set xs" by auto
    from Cons.IH [OF r this Cons.prems(3)] show ?thesis .
  qed
qed

lemma tags_fold_count:
  "fold_err (tags_step rp mc pc mx) (g, b) xs = Inr (g', b') \<Longrightarrow>
     length (filter (\<lambda>e. e ! 0 = PBytes tag) g') + length (filter (\<lambda>e. e ! 0 = PBytes tag) b') =
     length (filter (\<lambda>e. e ! 0 = PBytes tag) g) + length (filter (\<lambda>e. e ! 0 = PBytes tag) b) +
     (if tag = ''tip'' then 0 else length (filter (\<lambda>x. fst x = tag) xs))"
proof (induction xs arbitrary: g b)
  case Nil
  then show ?case by simp
next
  case (Cons x xs)
  obtain t n where x: "x = (t, n)" by (cases x)
  from Cons.prems(1) x obtain g1 b1 where
    s: "tags_step rp mc pc mx (g, b) (t, n) = Inr (g1, b1)" and
    r: "fold_err (tags_step rp mc pc mx) (g1, b1) xs = Inr (g', b')"
    by (auto split: sum.splits)
  from tags_step_cases [OF s] Cons.IH [OF r] show ?case
    unfolding x by (elim disjE conjE exE) auto
qed

lemma distinct_fst_count:
  "distinct (map fst xs) \<Longrightarrow> (k, v) \<in> set xs \<Longrightarrow> length (filter (\<lambda>x. fst x = k) xs) = 1"
proof (induction xs)
  case Nil
  then show ?case by simp
next
  case (Cons x xs)
  show ?case
  proof (cases "fst x = k")
    case True
    with Cons.prems(1) have "filter (\<lambda>x. fst x = k) xs = []"
      by (auto simp: filter_empty_conv image_iff)
    with True show ?thesis by simp
  next
    case False
    with Cons show ?thesis by auto
  qed
qed

lemma get_tags_Inr:
  assumes "get_tags ev rp mc pc mx = Inr (good, bad)"
  obtains g b where "fold_err (tags_step rp mc pc mx) ([], []) (tagslist rp) = Inr (g, b)"
    and "py_sort g = Inr good" and "py_sort b = Inr bad"
  using assms by (auto simp: get_tags_def split: sum.splits)

text \<open>
  C3. When \<open>get_tags\<close> returns, every tag of the repository other than \<open>tip\<close> has an
  entry in \<open>mapping_cache\<close> under the hex digest of its node, \<open>int\<close> reads the revision
  from that entry, and the tag is among the bad records exactly when that revision is
  strictly greater than \<open>max\<close>, among the good records exactly when it is not; its
  record carries the revision. Tag names are the keys of Mercurial's tag dictionary, so
  they are distinct.
\<close>

theorem get_tags_classifies:
  assumes "get_tags ev rp marks_cache mapping_cache mx = Inr (good, bad)"
    and "distinct (map fst (tagslist rp))"
    and "(tag, nd) \<in> set (tagslist rp)" and "tag \<noteq> ''tip''"
  shows "\<exists>v rv. map_of mapping_cache (hexlify nd) = Some v \<and> py_int (PBytes (content v)) = Inr rv \<and>
           tag_rev mapping_cache nd = Inr rv \<and>
           ((\<exists>e \<in> set bad. e ! 0 = PBytes tag) \<longleftrightarrow> rv > mx) \<and>
           ((\<exists>e \<in> set good. e ! 0 = PBytes tag) \<longleftrightarrow> \<not> rv > mx) \<and>
           (\<exists>e \<in> set good \<union> set bad. e ! 0 = PBytes tag \<and> e ! 3 = PInt rv)"
proof -
  from assms(1) obtain g b where
    f: "fold_err (tags_step rp marks_cache mapping_cache mx) ([], []) (tagslist rp) = Inr (g, b)" and
    sg: "py_sort g = Inr good" and sb: "py_sort b = Inr bad"
    by (rule get_tags_Inr)
  have sets: "set good = set g" "set bad = set b"
    using sg sb by (simp_all add: py_sort_set)
  from tags_fold_recorded [OF f assms(3,4)] obtain rv where
    rv: "tag_rev mapping_cache nd = Inr rv" and
    rec: "\<exists>e \<in> set g \<union> set b. e ! 0 = PBytes tag \<and> e ! 3 = PInt rv"
    by blast
  from rv obtain v where
    v: "map_of mapping_cache (hexlify nd) = Some v" "py_int (PBytes (content v)) = Inr rv"
    unfolding tag_rev_def by (cases "map_of mapping_cache (hexlify nd)") simp_all
  have uniq: "nd' = nd" if "(tag, nd') \<in> set (tagslist rp)" for nd'
    using assms(2,3) that by (meson eq_key_imp_eq_value)
  have ent: "(\<exists>nd' rv'. (tag, nd') \<in> set (tagslist rp) \<and> tag \<noteq> ''tip'' \<and> tag_rev mapping_cache nd' = Inr rv' \<and> P rv') \<longleftrightarrow> P rv" for P
  proof
    assume "\<exists>nd' rv'. (tag, nd') \<in> set (tagslist rp) \<and> tag \<noteq> ''tip'' \<and> tag_rev mapping_cache nd' = Inr rv' \<and> P rv'"
    then obtain nd' rv' where a: "(tag, nd') \<in> set (tagslist rp)" "tag_rev mapping_cache nd' = Inr rv'" "P rv'"
      by blast
    from uniq [OF a(1)] a(2) rv have "rv' = rv" by simp
    with a(3) show "P rv" by simp
  next
    assume "P rv"
    with assms(3,4) rv show "\<exists>nd' rv'. (tag, nd') \<in> set (tagslist rp) \<and> tag \<noteq> ''tip'' \<and> tag_rev mapping_cache nd' = Inr rv' \<and> P rv'"
      by blast
  qed
  have bi: "(\<exists>e \<in> set b. e ! 0 = PBytes tag) \<longleftrightarrow> rv > mx"
    using tags_fold_names [OF f, of tag] ent [of "\<lambda>r. r > mx"] by simp
  have gi: "(\<exists>e \<in> set g. e ! 0 = PBytes tag) \<longleftrightarrow> \<not> rv > mx"
    using tags_fold_names [OF f, of tag] ent [of "\<lambda>r. \<not> r > mx"] by simp
  from rec have rec': "\<exists>e \<in> set good \<union> set bad. e ! 0 = PBytes tag \<and> e ! 3 = PInt rv"
    unfolding sets .
  show ?thesis
  proof (intro exI conjI)
    show "map_of mapping_cache (hexlify nd) = Some v" by (rule v(1))
    show "py_int (PBytes (content v)) = Inr rv" by (rule v(2))
    show "tag_rev mapping_cache nd = Inr rv" by (rule rv)
    show "(\<exists>e \<in> set bad. e ! 0 = PBytes tag) \<longleftrightarrow> rv > mx" using bi unfolding sets .
    show "(\<exists>e \<in> set good. e ! 0 = PBytes tag) \<longleftrightarrow> \<not> rv > mx" using gi unfolding sets .
    show "\<exists>e \<in> set good \<union> set bad. e ! 0 = PBytes tag \<and> e ! 3 = PInt rv" by (rule rec')
  qed
qed

text \<open>The tag mapped to revision 10 is bad for \<open>max = 6\<close> and good for \<open>max = 11\<close>.\<close>

theorem get_tags_classifies_witness:
  "get_tags ex_env ex_tag_repo ex_marks_cache ex_tag_mapping 6 =
     Inr ([], [[PBytes ''rel'', PBytes ''default'', PNone, PInt 10, PBytes ''work'', PBytes ''alice'']]) \<and>
   get_tags ex_env ex_tag_repo ex_marks_cache ex_tag_mapping 11 =
     Inr ([[PBytes ''rel'', PBytes ''default'', PNone, PInt 10, PBytes ''work'', PBytes ''alice'']], []) \<and>
   distinct (map fst (tagslist ex_tag_repo)) \<and> (''rel'', ex_node 3) \<in> set (tagslist ex_tag_repo) \<and>
   map_of ex_tag_mapping (hexlify (ex_node 3)) = Some (BytesRef 9 ''10'') \<and>
   py_int (PBytes (content (BytesRef 9 ''10''))) = Inr 10 \<and>
   tag_rev ex_tag_mapping (ex_node 3) = Inr 10 \<and> (10::int) > 6 \<and> \<not> (10::int) > 11"
proof -
  have a: "get_tags ex_env ex_tag_repo ex_marks_cache ex_tag_mapping 6 =
     Inr ([], [[PBytes ''rel'', PBytes ''default'', PNone, PInt 10, PBytes ''work'', PBytes ''alice'']])"
    by code_simp
  have b: "get_tags ex_env ex_tag_repo ex_marks_cache ex_tag_mapping 11 =
     Inr ([[PBytes ''rel'', PBytes ''default'', PNone, PInt 10, PBytes ''work'', PBytes ''alice'']], [])"
    by code_simp
  have d: "distinct (map fst (tagslist ex_tag_repo))"
    by (simp add: ex_tag_repo_def)
  have m: "(''rel'', ex_node 3) \<in> set (tagslist ex_tag_repo)"
    by (simp add: ex_tag_repo_def)
  have t: "''rel'' \<noteq> ''tip''"
    by simp
  have l: "map_of ex_tag_mapping (hexlify (ex_node 3)) = Some (BytesRef 9 ''10'')"
    by (simp add: ex_tag_mapping_def)
  have p: "py_int (PBytes (content (BytesRef 9 ''10''))) = Inr 10"
    by code_simp
  have r: "tag_rev ex_tag_mapping (ex_node 3) = Inr 10"
    by code_simp
  show ?thesis
    using get_tags_classifies [OF a d m t] get_tags_classifies [OF b d m t] a b d m l p r by simp
qed

lemma get_tags_once:
  assumes "get_tags ev rp marks_cache mapping_cache mx = Inr (good, bad)"
    and "distinct (map fst (tagslist rp))"
    and "(tag, nd) \<in> set (tagslist rp)" and "tag \<noteq> ''tip''"
  shows "length (filter (\<lambda>e. e ! 0 = PBytes tag) good) + length (filter (\<lambda>e. e ! 0 = PBytes tag) bad) = 1"
proof -
  from assms(1) obtain g b where
    f: "fold_err (tags_step rp marks_cache mapping_cache mx) ([], []) (tagslist rp) = Inr (g, b)" and
    sg: "py_sort g = Inr good" and sb: "py_sort b = Inr bad"
    by (rule get_tags_Inr)
  from tags_fold_count [OF f, of tag] assms(4) distinct_fst_count [OF assms(2,3)]
  have "length (filter (\<lambda>e. e ! 0 = PBytes tag) g) + length (filter (\<lambda>e. e ! 0 = PBytes tag) b) = 1"
    by simp
  then show ?thesis
    using py_sort_count [OF sg] py_sort_count [OF sb] by simp
qed

lemma distinct_fst_count_le1: "distinct (map fst xs) \<Longrightarrow> length (filter (\<lambda>x. fst x = k) xs) \<le> 1"
proof (cases "k \<in> fst ` set xs")
  case True
  assume d: "distinct (map fst xs)"
  from True obtain v where "(k, v) \<in> set xs" by force
  from distinct_fst_count [OF d this] show ?thesis by simp
next
  case False
  then have "filter (\<lambda>x. fst x = k) xs = []"
    by (auto simp: filter_empty_conv)
  then show ?thesis by simp
qed

lemma get_tags_count:
  assumes "get_tags ev rp marks_cache mapping_cache mx = Inr (good, bad)" and "tag \<noteq> ''tip''"
  shows "length (filter (\<lambda>e. e ! 0 = PBytes tag) good) + length (filter (\<lambda>e. e ! 0 = PBytes tag) bad) =
         length (filter (\<lambda>x. fst x = tag) (tagslist rp))"
proof -
  from assms(1) obtain g b where
    f: "fold_err (tags_step rp marks_cache mapping_cache mx) ([], []) (tagslist rp) = Inr (g, b)" and
    sg: "py_sort g = Inr good" and sb: "py_sort b = Inr bad"
    by (rule get_tags_Inr)
  from tags_fold_count [OF f, of tag] assms(2)
  have "length (filter (\<lambda>e. e ! 0 = PBytes tag) g) + length (filter (\<lambda>e. e ! 0 = PBytes tag) b) =
        length (filter (\<lambda>x. fst x = tag) (tagslist rp))"
    by simp
  then show ?thesis
    using py_sort_count [OF sg] py_sort_count [OF sb] by simp
qed

text \<open>\<open>get_tags\<close> returns when every tag but \<open>tip\<close> is mapped and its changeset can be read.\<close>

lemma tags_step_shape:
  assumes "tags_step rp mc pc mx (g, b) (tag, nd) = Inr (g', b')"
    and "\<forall>e \<in> set g \<union> set b. e \<noteq> [] \<and> (\<exists>a. e ! 0 = PBytes a)"
  shows "\<forall>e \<in> set g' \<union> set b'. e \<noteq> [] \<and> (\<exists>a. e ! 0 = PBytes a)"
  using assms by (auto simp: tags_step_def Let_def split: sum.splits if_splits)

lemma tags_fold_shape:
  "fold_err (tags_step rp mc pc mx) (g, b) xs = Inr (g', b') \<Longrightarrow>
     \<forall>e \<in> set g \<union> set b. e \<noteq> [] \<and> (\<exists>a. e ! 0 = PBytes a) \<Longrightarrow>
     \<forall>e \<in> set g' \<union> set b'. e \<noteq> [] \<and> (\<exists>a. e ! 0 = PBytes a)"
proof (induction xs arbitrary: g b)
  case Nil
  then show ?case by simp
next
  case (Cons x xs)
  obtain t n where x: "x = (t, n)" by (cases x)
  from Cons.prems(1) x obtain g1 b1 where
    s: "tags_step rp mc pc mx (g, b) (t, n) = Inr (g1, b1)" and
    r: "fold_err (tags_step rp mc pc mx) (g1, b1) xs = Inr (g', b')"
    by (auto split: sum.splits)
  from Cons.IH [OF r tags_step_shape [OF s Cons.prems(2)]] show ?case .
qed

lemma tags_fold_returns:
  "\<forall>(tag, nd) \<in> set xs. tag \<noteq> ''tip'' \<longrightarrow> (\<exists>rv cs. tag_rev pc nd = Inr rv \<and> get_changeset rp (PInt rv) = Inr cs)
     \<Longrightarrow> \<exists>res. fold_err (tags_step rp mc pc mx) (g, b) xs = Inr res"
proof (induction xs arbitrary: g b)
  case Nil
  then show ?case by simp
next
  case (Cons x xs)
  obtain t n where x: "x = (t, n)" by (cases x)
  have "\<exists>g1 b1. tags_step rp mc pc mx (g, b) (t, n) = Inr (g1, b1)"
  proof (cases "t = ''tip''")
    case True
    then show ?thesis by (simp add: tags_step_def)
  next
    case False
    with Cons.prems x obtain rv cs where "tag_rev pc n = Inr rv" "get_changeset rp (PInt rv) = Inr cs"
      by auto
    with False show ?thesis
      by (simp add: tags_step_def Let_def)
  qed
  then obtain g1 b1 where s: "tags_step rp mc pc mx (g, b) (t, n) = Inr (g1, b1)"
    by blast
  from Cons.prems have "\<forall>(tag, nd) \<in> set xs. tag \<noteq> ''tip'' \<longrightarrow> (\<exists>rv cs. tag_rev pc nd = Inr rv \<and> get_changeset rp (PInt rv) = Inr cs)"
    by simp
  from Cons.IH [OF this, of g1 b1] s x show ?case
    by simp
qed

lemma get_tags_returns:
  assumes "distinct (map fst (tagslist rp))"
    and "\<forall>(tag, nd) \<in> set (tagslist rp). tag \<noteq> ''tip'' \<longrightarrow>
           (\<exists>rv cs. tag_rev mapping_cache nd = Inr rv \<and> get_changeset rp (PInt rv) = Inr cs)"
  shows "\<exists>good bad. get_tags ev rp marks_cache mapping_cache mx = Inr (good, bad)"
proof -
  from tags_fold_returns [OF assms(2), of marks_cache mx "[]" "[]"] obtain g b where
    f: "fold_err (tags_step rp marks_cache mapping_cache mx) ([], []) (tagslist rp) = Inr (g, b)"
    by (metis surj_pair)
  from tags_fold_shape [OF f] have shape: "\<forall>e \<in> set g \<union> set b. e \<noteq> [] \<and> (\<exists>a. e ! 0 = PBytes a)"
    by simp
  have le1: "length (filter (\<lambda>e. e ! 0 = PBytes t) g) + length (filter (\<lambda>e. e ! 0 = PBytes t) b) \<le> 1" for t
    using tags_fold_count [OF f, of t] distinct_fst_count_le1 [OF assms(1), of t] by simp
  have ug: "x = y" if "x \<in> set g" "y \<in> set g" "x ! 0 = y ! 0" for x y
  proof -
    from shape that(1) obtain t where t: "x ! 0 = PBytes t" by blast
    from le1 [of t] have "length (filter (\<lambda>e. e ! 0 = PBytes t) g) \<le> 1" by simp
    from filter_le1_unique [OF this that(1,2)] t that(3) show ?thesis by simp
  qed
  have ub: "x = y" if "x \<in> set b" "y \<in> set b" "x ! 0 = y ! 0" for x y
  proof -
    from shape that(1) obtain t where t: "x ! 0 = PBytes t" by blast
    from le1 [of t] have "length (filter (\<lambda>e. e ! 0 = PBytes t) b) \<le> 1" by simp
    from filter_le1_unique [OF this that(1,2)] t that(3) show ?thesis by simp
  qed
  from shape ug have "\<exists>zs. py_sort g = Inr zs"
    by (intro py_sort_returns) auto
  then obtain good where sg: "py_sort g = Inr good" ..
  from shape ub have "\<exists>zs. py_sort b = Inr zs"
    by (intro py_sort_returns) auto
  then obtain bad where sb: "py_sort b = Inr bad" ..
  from f sg sb have "get_tags ev rp marks_cache mapping_cache mx = Inr (good, bad)"
    by (simp add: get_tags_def)
  then show ?thesis by blast
qed

section \<open>Properties of the Branch Classifier\<close>

lemma dict_set_distinct: "distinct d \<Longrightarrow> distinct (dict_set k d)"
  by (simp add: dict_set_def)

lemma foldl_dict_set:
  "distinct d \<Longrightarrow> distinct (foldl (\<lambda>d k. dict_set k d) d ks) \<and> set (foldl (\<lambda>d k. dict_set k d) d ks) = set d \<union> set ks"
proof (induction ks arbitrary: d)
  case Nil
  then show ?case by simp
next
  case (Cons k ks)
  from Cons.IH [OF dict_set_distinct [OF Cons.prems], of k] show ?case
    by (simp add: set_dict_set)
qed

lemma fromkeys_distinct: "distinct (fromkeys ks)"
  using foldl_dict_set [of "[]" ks] by (simp add: fromkeys_def)

lemma set_fromkeys: "set (fromkeys ks) = set ks"
  using foldl_dict_set [of "[]" ks] by (simp add: fromkeys_def)

lemma count_list_distinct: "distinct xs \<Longrightarrow> count_list xs x = (if x \<in> set xs then 1 else 0)"
  by (induction xs) auto

lemma count_list_dict_del: "count_list (dict_del k d) x = (if x = k then 0 else count_list d x)"
  by (induction d) (auto simp: dict_del_def)

lemma dict_del_distinct: "distinct d \<Longrightarrow> distinct (dict_del k d)"
  by (simp add: dict_del_def distinct_removeAll)

lemma branches_step_cases:
  assumes "branches_step ev rp mc (st, ch, un) (nd, rv) = Inr (st', ch', un')"
  shows "\<exists>cs e. get_changeset rp (PBytes rv) = Inr cs \<and> cs_branch cs \<in> set st \<and>
           st' = dict_del (cs_branch cs) st \<and> e ! 0 = PBytes (cs_branch cs) \<and>
           ((ch' = ch @ [e] \<and> un' = un) \<or> (ch' = ch \<and> un' = un @ [e]))"
  using assms by (auto simp: branches_step_def Let_def split: sum.splits if_splits)

lemma branches_fold_count:
  "fold_err (branches_step ev rp mc) (st, ch, un) hs = Inr (st', ch', un') \<Longrightarrow> distinct st \<Longrightarrow>
     count_list st' br + length (filter (\<lambda>e. e ! 0 = PBytes br) ch') + length (filter (\<lambda>e. e ! 0 = PBytes br) un') =
     count_list st br + length (filter (\<lambda>e. e ! 0 = PBytes br) ch) + length (filter (\<lambda>e. e ! 0 = PBytes br) un)"
proof (induction hs arbitrary: st ch un)
  case Nil
  then show ?case by simp
next
  case (Cons h hs)
  obtain nd rv where h: "h = (nd, rv)" by (cases h)
  from Cons.prems(1) h obtain st1 ch1 un1 where
    s: "branches_step ev rp mc (st, ch, un) (nd, rv) = Inr (st1, ch1, un1)" and
    r: "fold_err (branches_step ev rp mc) (st1, ch1, un1) hs = Inr (st', ch', un')"
    by (auto split: sum.splits)
  from branches_step_cases [OF s] obtain cs :: changeset and e where
    c: "cs_branch cs \<in> set st" "st1 = dict_del (cs_branch cs) st" "e ! 0 = PBytes (cs_branch cs)"
       "(ch1 = ch @ [e] \<and> un1 = un) \<or> (ch1 = ch \<and> un1 = un @ [e])"
    by blast
  have d1: "distinct st1"
    using c(2) Cons.prems(2) by (simp add: dict_del_distinct)
  have "count_list st1 br + length (filter (\<lambda>e. e ! 0 = PBytes br) ch1) + length (filter (\<lambda>e. e ! 0 = PBytes br) un1) =
        count_list st br + length (filter (\<lambda>e. e ! 0 = PBytes br) ch) + length (filter (\<lambda>e. e ! 0 = PBytes br) un)"
  proof (cases "br = cs_branch cs")
    case True
    have "count_list st br = 1"
      using True c(1) Cons.prems(2) by (simp add: count_list_distinct)
    moreover have "count_list st1 br = 0"
      using True c(2) by (simp add: count_list_dict_del)
    ultimately show ?thesis
      using True c(3,4) by auto
  next
    case False
    have "count_list st1 br = count_list st br"
      using False c(2) by (simp add: count_list_dict_del)
    then show ?thesis
      using False c(3,4) by auto
  qed
  with Cons.IH [OF r d1] show ?case
    by simp
qed

lemma branches_fold_in_stale:
  "fold_err (branches_step ev rp mc) (st, ch, un) hs = Inr res \<Longrightarrow> (nd, rv) \<in> set hs
     \<Longrightarrow> \<exists>cs. get_changeset rp (PBytes rv) = Inr cs \<and> cs_branch cs \<in> set st"
proof (induction hs arbitrary: st ch un)
  case Nil
  then show ?case by simp
next
  case (Cons h hs)
  obtain nd0 rv0 where h: "h = (nd0, rv0)" by (cases h)
  from Cons.prems(1) h obtain st1 ch1 un1 where
    s: "branches_step ev rp mc (st, ch, un) (nd0, rv0) = Inr (st1, ch1, un1)" and
    r: "fold_err (branches_step ev rp mc) (st1, ch1, un1) hs = Inr res"
    by (auto split: sum.splits)
  from branches_step_cases [OF s] obtain cs0 where
    c: "get_changeset rp (PBytes rv0) = Inr cs0" "cs_branch cs0 \<in> set st" "st1 = dict_del (cs_branch cs0) st"
    by blast
  show ?case
  proof (cases "(nd, rv) = (nd0, rv0)")
    case True
    with c show ?thesis by auto
  next
    case False
    with Cons.prems(2) h have "(nd, rv) \<in> set hs" by auto
    from Cons.IH [OF r this] obtain cs where "get_changeset rp (PBytes rv) = Inr cs" "cs_branch cs \<in> set st1"
      by blast
    with c(3) show ?thesis
      by (auto simp: set_dict_del)
  qed
qed

lemma branches_step_error:
  assumes "branches_step ev rp mc (st, ch, un) (nd, rv) = Inl e"
    and "get_changeset rp (PBytes rv) = Inr cs" and "get_git_sha1 ev (cs_branch cs) = Inr g"
    and "py_int (PBytes rv) = Inr i"
  shows "e = KeyError (cs_branch cs) \<and> cs_branch cs \<notin> set st"
  using assms by (auto simp: branches_step_def Let_def split: sum.splits if_splits)

lemma branches_fold_error:
  "fold_err (branches_step ev rp mc) (st, ch, un) hs = Inl e \<Longrightarrow>
     (\<forall>(nd, rv) \<in> set hs. \<exists>cs g i. get_changeset rp (PBytes rv) = Inr cs \<and> get_git_sha1 ev (cs_branch cs) = Inr g \<and> py_int (PBytes rv) = Inr i)
     \<Longrightarrow> \<exists>k. e = KeyError k"
proof (induction hs arbitrary: st ch un)
  case Nil
  then show ?case by simp
next
  case (Cons h hs)
  obtain nd rv where h: "h = (nd, rv)" by (cases h)
  from Cons.prems(2) h obtain cs g i where
    ok: "get_changeset rp (PBytes rv) = Inr cs" "get_git_sha1 ev (cs_branch cs) = Inr g" "py_int (PBytes rv) = Inr i"
    by auto
  show ?case
  proof (cases "branches_step ev rp mc (st, ch, un) (nd, rv)")
    case (Inl e')
    with Cons.prems(1) h have "e = e'" by simp
    with branches_step_error [OF Inl ok] show ?thesis by blast
  next
    case (Inr s1)
    obtain st1 ch1 un1 where s1: "s1 = (st1, ch1, un1)" by (cases s1)
    from Cons.prems(1) h Inr s1 have "fold_err (branches_step ev rp mc) (st1, ch1, un1) hs = Inl e"
      by simp
    moreover from Cons.prems(2) have
      "\<forall>(nd, rv) \<in> set hs. \<exists>cs g i. get_changeset rp (PBytes rv) = Inr cs \<and> get_git_sha1 ev (cs_branch cs) = Inr g \<and> py_int (PBytes rv) = Inr i"
      by simp
    ultimately show ?thesis
      by (rule Cons.IH)
  qed
qed

lemma heads_Inr_fmt:
  assumes "heads rp start stop mx = Inr res" and "(n, t) \<in> set res"
  shows "\<exists>r. t = fmt_d r"
proof -
  from assms(1) obtain s R H where
    m: "map_err (\<lambda>r. case changelog_node rp r of Inl e \<Rightarrow> Inl e | Inr n \<Rightarrow> Inr (n, fmt_d r)) H = Inr res"
    by (auto simp: heads_def split: sum.splits)
  from map_err_Inr_set [OF m assms(2)] obtain r where
    "(case changelog_node rp r of Inl e \<Rightarrow> Inl e | Inr n \<Rightarrow> Inr (n, fmt_d r)) = Inr (n, t)"
    by blast
  then have "t = fmt_d r"
    by (cases "changelog_node rp r") simp_all
  then show ?thesis ..
qed

text \<open>
  \<open>get_branches\<close> returns when the heads lie on different branches, all of them keys of
  \<open>heads_cache\<close>, and the changeset and Git identifier of each can be read.
\<close>

lemma branches_step_shape:
  assumes "branches_step ev rp mc (st, ch, un) (nd, rv) = Inr (st', ch', un')"
    and "\<forall>e \<in> set ch \<union> set un. e \<noteq> [] \<and> (\<exists>a. e ! 0 = PBytes a)"
  shows "\<forall>e \<in> set ch' \<union> set un'. e \<noteq> [] \<and> (\<exists>a. e ! 0 = PBytes a)"
  using assms by (auto simp: branches_step_def Let_def split: sum.splits if_splits)

lemma branches_fold_shape:
  "fold_err (branches_step ev rp mc) (st, ch, un) hs = Inr (st', ch', un') \<Longrightarrow>
     \<forall>e \<in> set ch \<union> set un. e \<noteq> [] \<and> (\<exists>a. e ! 0 = PBytes a) \<Longrightarrow>
     \<forall>e \<in> set ch' \<union> set un'. e \<noteq> [] \<and> (\<exists>a. e ! 0 = PBytes a)"
proof (induction hs arbitrary: st ch un)
  case Nil
  then show ?case by simp
next
  case (Cons h hs)
  obtain nd rv where h: "h = (nd, rv)" by (cases h)
  from Cons.prems(1) h obtain st1 ch1 un1 where
    s: "branches_step ev rp mc (st, ch, un) (nd, rv) = Inr (st1, ch1, un1)" and
    r: "fold_err (branches_step ev rp mc) (st1, ch1, un1) hs = Inr (st', ch', un')"
    by (auto split: sum.splits)
  from Cons.IH [OF r branches_step_shape [OF s Cons.prems(2)]] show ?case .
qed

lemma branches_fold_returns:
  "\<forall>(nd, rv) \<in> set hs. \<exists>cs g i. get_changeset rp (PBytes rv) = Inr cs \<and> get_git_sha1 ev (cs_branch cs) = Inr g \<and>
       py_int (PBytes rv) = Inr i \<and> cs_branch cs \<in> set st \<Longrightarrow>
   distinct (map (\<lambda>h. (case get_changeset rp (PBytes (snd h)) of Inl e \<Rightarrow> None | Inr c \<Rightarrow> Some (cs_branch c))) hs) \<Longrightarrow>
   \<exists>res. fold_err (branches_step ev rp mc) (st, ch, un) hs = Inr res"
proof (induction hs arbitrary: st ch un)
  case Nil
  then show ?case by simp
next
  case (Cons h hs)
  obtain nd rv where h: "h = (nd, rv)" by (cases h)
  from Cons.prems(1) h obtain cs g i where
    ok: "get_changeset rp (PBytes rv) = Inr cs" "get_git_sha1 ev (cs_branch cs) = Inr g"
        "py_int (PBytes rv) = Inr i" "cs_branch cs \<in> set st"
    by auto
  then have "\<exists>ch1 un1. branches_step ev rp mc (st, ch, un) (nd, rv) = Inr (dict_del (cs_branch cs) st, ch1, un1)"
    by (simp add: branches_step_def Let_def)
  then obtain ch1 un1 where s: "branches_step ev rp mc (st, ch, un) (nd, rv) = Inr (dict_del (cs_branch cs) st, ch1, un1)"
    by blast
  have rest: "\<forall>(nd, rv) \<in> set hs. \<exists>c g i. get_changeset rp (PBytes rv) = Inr c \<and> get_git_sha1 ev (cs_branch c) = Inr g \<and>
       py_int (PBytes rv) = Inr i \<and> cs_branch c \<in> set (dict_del (cs_branch cs) st)"
  proof (clarify)
    fix n r assume m: "(n, r) \<in> set hs"
    with Cons.prems(1) obtain c g i where
      c: "get_changeset rp (PBytes r) = Inr c" "get_git_sha1 ev (cs_branch c) = Inr g"
         "py_int (PBytes r) = Inr i" "cs_branch c \<in> set st"
      by fastforce
    from Cons.prems(2) have
      "(case get_changeset rp (PBytes (snd h)) of Inl e \<Rightarrow> None | Inr c \<Rightarrow> Some (cs_branch c)) \<notin>
         (\<lambda>h. (case get_changeset rp (PBytes (snd h)) of Inl e \<Rightarrow> None | Inr c \<Rightarrow> Some (cs_branch c))) ` set hs"
      by simp
    with m have
      "(case get_changeset rp (PBytes (snd h)) of Inl e \<Rightarrow> None | Inr c \<Rightarrow> Some (cs_branch c)) \<noteq>
         (case get_changeset rp (PBytes (snd (n, r))) of Inl e \<Rightarrow> None | Inr c \<Rightarrow> Some (cs_branch c))"
      by (metis (no_types, lifting) imageI)
    with h have
      "(case get_changeset rp (PBytes rv) of Inl e \<Rightarrow> None | Inr c \<Rightarrow> Some (cs_branch c)) \<noteq> (case get_changeset rp (PBytes r) of Inl e \<Rightarrow> None | Inr c \<Rightarrow> Some (cs_branch c))"
      by simp
    with ok(1) c(1) have "cs_branch c \<noteq> cs_branch cs" by auto
    with c show "\<exists>c g i. get_changeset rp (PBytes r) = Inr c \<and> get_git_sha1 ev (cs_branch c) = Inr g \<and>
       py_int (PBytes r) = Inr i \<and> cs_branch c \<in> set (dict_del (cs_branch cs) st)"
      by (auto simp: set_dict_del)
  qed
  from Cons.prems(2) have "distinct (map (\<lambda>h. (case get_changeset rp (PBytes (snd h)) of Inl e \<Rightarrow> None | Inr c \<Rightarrow> Some (cs_branch c))) hs)"
    by simp
  from Cons.IH [OF rest this, of ch1 un1] s h show ?case
    by simp
qed

lemma get_branches_returns:
  assumes "heads rp None None (Some mx) = Inr h"
    and "\<forall>(nd, rv) \<in> set h. \<exists>cs g. get_changeset rp (PBytes rv) = Inr cs \<and> get_git_sha1 ev (cs_branch cs) = Inr g \<and>
           cs_branch cs \<in> fst ` set heads_cache"
    and "distinct (map (\<lambda>h. (case get_changeset rp (PBytes (snd h)) of Inl e \<Rightarrow> None | Inr c \<Rightarrow> Some (cs_branch c))) h)"
  shows "\<exists>stale changed unchanged.
           get_branches ev rp heads_cache marks_cache mapping_cache mx = Inr (stale, changed, unchanged)"
proof -
  have pre: "\<forall>(nd, rv) \<in> set h. \<exists>cs g i. get_changeset rp (PBytes rv) = Inr cs \<and> get_git_sha1 ev (cs_branch cs) = Inr g \<and>
       py_int (PBytes rv) = Inr i \<and> cs_branch cs \<in> set (fromkeys (map fst heads_cache))"
  proof (clarify)
    fix n r assume m: "(n, r) \<in> set h"
    from heads_Inr_fmt [OF assms(1) m] obtain i where "r = fmt_d i" ..
    then have "py_int (PBytes r) = Inr i" by (simp add: parse_int_fmt_d)
    moreover from assms(2) m obtain c g where
      "get_changeset rp (PBytes r) = Inr c" "get_git_sha1 ev (cs_branch c) = Inr g" "cs_branch c \<in> fst ` set heads_cache"
      by fastforce
    ultimately show "\<exists>cs g i. get_changeset rp (PBytes r) = Inr cs \<and> get_git_sha1 ev (cs_branch cs) = Inr g \<and>
       py_int (PBytes r) = Inr i \<and> cs_branch cs \<in> set (fromkeys (map fst heads_cache))"
      by (auto simp: set_fromkeys)
  qed
  from branches_fold_returns [OF pre assms(3), of marks_cache "[]" "[]"] obtain st ch un where
    f: "fold_err (branches_step ev rp marks_cache) (fromkeys (map fst heads_cache), [], []) h = Inr (st, ch, un)"
    by (metis prod_cases3)
  from branches_fold_shape [OF f] have shape: "\<forall>e \<in> set ch \<union> set un. e \<noteq> [] \<and> (\<exists>a. e ! 0 = PBytes a)"
    by simp
  have le1: "count_list st t + length (filter (\<lambda>e. e ! 0 = PBytes t) ch) + length (filter (\<lambda>e. e ! 0 = PBytes t) un) \<le> 1" for t
    using branches_fold_count [OF f fromkeys_distinct, of t] count_list_distinct [OF fromkeys_distinct, of "map fst heads_cache" t]
    by simp
  have uc: "x = y" if "x \<in> set ch" "y \<in> set ch" "x ! 0 = y ! 0" for x y
  proof -
    from shape that(1) obtain t where t: "x ! 0 = PBytes t" by blast
    from le1 [of t] have "length (filter (\<lambda>e. e ! 0 = PBytes t) ch) \<le> 1" by simp
    from filter_le1_unique [OF this that(1,2)] t that(3) show ?thesis by simp
  qed
  have uu: "x = y" if "x \<in> set un" "y \<in> set un" "x ! 0 = y ! 0" for x y
  proof -
    from shape that(1) obtain t where t: "x ! 0 = PBytes t" by blast
    from le1 [of t] have "length (filter (\<lambda>e. e ! 0 = PBytes t) un) \<le> 1" by simp
    from filter_le1_unique [OF this that(1,2)] t that(3) show ?thesis by simp
  qed
  from shape uc have "\<exists>zs. py_sort ch = Inr zs"
    by (intro py_sort_returns) auto
  then obtain changed where sc: "py_sort ch = Inr changed" ..
  from shape uu have "\<exists>zs. py_sort un = Inr zs"
    by (intro py_sort_returns) auto
  then obtain unchanged where su: "py_sort un = Inr unchanged" ..
  from assms(1) f sc su have "get_branches ev rp heads_cache marks_cache mapping_cache mx = Inr (st, changed, unchanged)"
    by (simp add: get_branches_def)
  then show ?thesis by blast
qed

text \<open>
  When no object returned by \<open>get_git_sha1\<close> is an object of the marks cache, no head is
  ever classified unchanged.
\<close>

lemma branches_fold_unchanged_empty:
  "fold_err (branches_step ev rp mc) (st, ch, []) hs = Inr (st', ch', un') \<Longrightarrow>
     (\<forall>br g. get_git_sha1 ev br = Inr (Some g) \<longrightarrow> ident g \<notin> ident ` snd ` set mc) \<Longrightarrow> un' = []"
proof (induction hs arbitrary: st ch)
  case Nil
  then show ?case by simp
next
  case (Cons h hs)
  obtain nd rv where h: "h = (nd, rv)" by (cases h)
  from Cons.prems(1) h obtain st1 ch1 un1 where
    s: "branches_step ev rp mc (st, ch, []) (nd, rv) = Inr (st1, ch1, un1)" and
    r: "fold_err (branches_step ev rp mc) (st1, ch1, un1) hs = Inr (st', ch', un')"
    by (auto split: sum.splits)
  have fresh: "\<not> py_is (Some g) (map_of mc k)" if "get_git_sha1 ev br = Inr (Some g)" for br g k
  proof (cases "map_of mc k")
    case None
    then show ?thesis by simp
  next
    case (Some c)
    then have "(k, c) \<in> set mc" by (rule map_of_SomeD)
    then have "ident c \<in> ident ` snd ` set mc" by force
    moreover from Cons.prems(2) that have "ident g \<notin> ident ` snd ` set mc" by blast
    ultimately have "ident g \<noteq> ident c" by metis
    with Some show ?thesis by simp
  qed
  from s have "un1 = []"
    by (auto simp: branches_step_def Let_def fresh split: sum.splits if_splits)
  with r Cons.IH Cons.prems(2) show ?case
    by blast
qed

lemma get_branches_unchanged_empty:
  assumes "get_branches ev rp heads_cache marks_cache mapping_cache mx = Inr (stale, changed, unchanged)"
    and "\<forall>br g. get_git_sha1 ev br = Inr (Some g) \<longrightarrow> ident g \<notin> ident ` snd ` set marks_cache"
  shows "unchanged = []"
proof -
  from assms(1) obtain h ch un where
    f: "fold_err (branches_step ev rp marks_cache) (fromkeys (map fst heads_cache), [], []) h = Inr (stale, ch, un)" and
    su: "py_sort un = Inr unchanged"
    by (auto simp: get_branches_def split: sum.splits)
  from branches_fold_unchanged_empty [OF f assms(2)] have "un = []" .
  with su show ?thesis
    by (simp add: py_sort_def)
qed

text \<open>
  C9. When the Head Finder returns a head whose branch is not a key of \<open>heads_cache\<close>,
  \<open>get_branches\<close> returns no classification: it raises. When moreover the changeset and
  the Git identifier of every head can be read, the exception is the \<open>KeyError\<close> of
  \<open>del stale[branch]\<close>.
\<close>

theorem get_branches_unknown_branch_raises:
  assumes "heads rp None None (Some mx) = Inr h"
    and "(nd, rv) \<in> set h" and "get_changeset rp (PBytes rv) = Inr cs"
    and "cs_branch cs \<notin> fst ` set heads_cache"
  shows "(\<exists>e. get_branches ev rp heads_cache marks_cache mapping_cache mx = Inl e) \<and>
         ((\<forall>(n, r) \<in> set h. \<exists>c g. get_changeset rp (PBytes r) = Inr c \<and> get_git_sha1 ev (cs_branch c) = Inr g) \<longrightarrow>
          (\<exists>k. get_branches ev rp heads_cache marks_cache mapping_cache mx = Inl (KeyError k)))"
proof -
  let ?f = "fold_err (branches_step ev rp marks_cache) (fromkeys (map fst heads_cache), [], []) h"
  have no: "?f \<noteq> Inr res" for res
  proof
    assume "?f = Inr res"
    from branches_fold_in_stale [OF this assms(2)] assms(3)
    have "cs_branch cs \<in> set (fromkeys (map fst heads_cache))"
      by auto
    with assms(4) show False
      by (simp add: set_fromkeys)
  qed
  then obtain e where e: "?f = Inl e"
    by (cases ?f) auto
  have g: "get_branches ev rp heads_cache marks_cache mapping_cache mx = Inl e"
    using assms(1) e by (simp add: get_branches_def)
  have "\<exists>k. e = KeyError k"
    if ok: "\<forall>(n, r) \<in> set h. \<exists>c g. get_changeset rp (PBytes r) = Inr c \<and> get_git_sha1 ev (cs_branch c) = Inr g"
  proof (rule branches_fold_error [OF e])
    show "\<forall>(nd, rv) \<in> set h. \<exists>cs g i. get_changeset rp (PBytes rv) = Inr cs \<and>
            get_git_sha1 ev (cs_branch cs) = Inr g \<and> py_int (PBytes rv) = Inr i"
    proof (clarify)
      fix n r assume m: "(n, r) \<in> set h"
      from heads_Inr_fmt [OF assms(1) m] obtain i where "r = fmt_d i" ..
      then have "py_int (PBytes r) = Inr i"
        by (simp add: parse_int_fmt_d)
      moreover from ok m obtain c g where "get_changeset rp (PBytes r) = Inr c" "get_git_sha1 ev (cs_branch c) = Inr g"
        by blast
      ultimately show "\<exists>cs g i. get_changeset rp (PBytes r) = Inr cs \<and>
            get_git_sha1 ev (cs_branch cs) = Inr g \<and> py_int (PBytes r) = Inr i"
        by blast
    qed
  qed
  with g show ?thesis
    by blast
qed

theorem get_branches_unknown_branch_raises_witness:
  "heads ex_repo None None (Some 6) = Inr [(ex_node 3, ''3''), (ex_node 5, ''5'')] \<and>
   get_changeset ex_repo (PBytes ''5'') = Inr \<lparr>cs_user = ''bob'', cs_desc = ''fix'', cs_branch = ''stable''\<rparr> \<and>
   ''stable'' \<notin> fst ` set [(''default'', BytesRef 1 ''aaaa'')] \<and>
   get_branches ex_env ex_repo [(''default'', BytesRef 1 ''aaaa'')] ex_marks_cache ex_mapping_cache 6 =
     Inl (KeyError ''stable'')"
proof -
  have h: "heads ex_repo None None (Some 6) = Inr [(ex_node 3, ''3''), (ex_node 5, ''5'')]"
    by code_simp
  have m: "(ex_node 5, ''5'') \<in> set [(ex_node 3, ''3''), (ex_node 5, ''5'')]"
    by simp
  have c: "get_changeset ex_repo (PBytes ''5'') = Inr \<lparr>cs_user = ''bob'', cs_desc = ''fix'', cs_branch = ''stable''\<rparr>"
    by code_simp
  have n: "cs_branch \<lparr>cs_user = ''bob'', cs_desc = ''fix'', cs_branch = ''stable''\<rparr> \<notin> fst ` set [(''default'', BytesRef 1 ''aaaa'')]"
    by simp
  have r: "get_branches ex_env ex_repo [(''default'', BytesRef 1 ''aaaa'')] ex_marks_cache ex_mapping_cache 6 =
     Inl (KeyError ''stable'')"
    by code_simp
  show ?thesis
    using get_branches_unknown_branch_raises [OF h m c n, of ex_env ex_marks_cache ex_mapping_cache] h c r by simp
qed

text \<open>
  C4. When \<open>get_branches\<close> returns, every branch name of \<open>heads_cache\<close> occurs exactly
  once in \<open>stale\<close>, \<open>changed\<close> and \<open>unchanged\<close> taken together. When \<open>get_tags\<close> returns,
  a tag name other than \<open>tip\<close> occurs in \<open>good\<close> and \<open>bad\<close> taken together as often as
  in the tag list: exactly once, tag names being the distinct keys of Mercurial's tag
  dictionary.
\<close>

theorem classification_complete:
  "(get_branches ev rp heads_cache marks_cache mapping_cache mx = Inr (stale, changed, unchanged) \<longrightarrow>
      (\<forall>br \<in> fst ` set heads_cache.
         count_list stale br + length (filter (\<lambda>e. e ! 0 = PBytes br) changed) +
           length (filter (\<lambda>e. e ! 0 = PBytes br) unchanged) = 1)) \<and>
   (get_tags ev rp marks_cache mapping_cache mx = Inr (good, bad) \<longrightarrow>
      (\<forall>tag. tag \<noteq> ''tip'' \<longrightarrow>
         length (filter (\<lambda>e. e ! 0 = PBytes tag) good) + length (filter (\<lambda>e. e ! 0 = PBytes tag) bad) =
         length (filter (\<lambda>x. fst x = tag) (tagslist rp))) \<and>
      (distinct (map fst (tagslist rp)) \<longrightarrow>
         (\<forall>(tag, nd) \<in> set (tagslist rp). tag \<noteq> ''tip'' \<longrightarrow>
            length (filter (\<lambda>e. e ! 0 = PBytes tag) good) + length (filter (\<lambda>e. e ! 0 = PBytes tag) bad) = 1)))"
proof (intro conjI impI ballI allI)
  fix br
  assume gb: "get_branches ev rp heads_cache marks_cache mapping_cache mx = Inr (stale, changed, unchanged)"
    and br: "br \<in> fst ` set heads_cache"
  from gb obtain h ch un where
    f: "fold_err (branches_step ev rp marks_cache) (fromkeys (map fst heads_cache), [], []) h = Inr (stale, ch, un)" and
    sc: "py_sort ch = Inr changed" and su: "py_sort un = Inr unchanged"
    by (auto simp: get_branches_def split: sum.splits)
  from branches_fold_count [OF f fromkeys_distinct, of br]
  have "count_list stale br + length (filter (\<lambda>e. e ! 0 = PBytes br) ch) + length (filter (\<lambda>e. e ! 0 = PBytes br) un) =
        count_list (fromkeys (map fst heads_cache)) br"
    by simp
  also have "\<dots> = 1"
    using br by (simp add: count_list_distinct [OF fromkeys_distinct] set_fromkeys)
  finally show "count_list stale br + length (filter (\<lambda>e. e ! 0 = PBytes br) changed) +
           length (filter (\<lambda>e. e ! 0 = PBytes br) unchanged) = 1"
    using py_sort_count [OF sc] py_sort_count [OF su] by simp
next
  fix tag :: string
  assume "get_tags ev rp marks_cache mapping_cache mx = Inr (good, bad)" and "tag \<noteq> ''tip''"
  then show "length (filter (\<lambda>e. e ! 0 = PBytes tag) good) + length (filter (\<lambda>e. e ! 0 = PBytes tag) bad) =
         length (filter (\<lambda>x. fst x = tag) (tagslist rp))"
    by (rule get_tags_count)
next
  fix x
  assume gt: "get_tags ev rp marks_cache mapping_cache mx = Inr (good, bad)"
    and d: "distinct (map fst (tagslist rp))"
    and x: "x \<in> set (tagslist rp)"
  show "case x of (tag, nd) \<Rightarrow> tag \<noteq> ''tip'' \<longrightarrow>
         length (filter (\<lambda>e. e ! 0 = PBytes tag) good) + length (filter (\<lambda>e. e ! 0 = PBytes tag) bad) = 1"
  proof (cases x)
    case (Pair tag nd)
    with gt d x get_tags_once [of ev rp marks_cache mapping_cache mx good bad tag nd] show ?thesis
      by simp
  qed
qed

theorem classification_complete_witness:
  "get_branches ex_env ex_repo ex_heads_cache ex_marks_cache ex_mapping_cache 4 =
     Inr ([''stable''], [[PBytes ''default'', PBytes ''aaaa'', PBytes ''3'', PBytes ''work'', PBytes ''alice'']], []) \<and>
   get_tags ex_env ex_repo ex_marks_cache ex_mapping_cache 4 =
     Inr ([[PBytes ''v1'', PBytes ''default'', PBytes ''cccc'', PInt 2, PBytes ''work'', PBytes ''alice'']],
          [[PBytes ''v2'', PBytes ''stable'', PBytes ''bbbb'', PInt 5, PBytes ''fix'', PBytes ''bob'']]) \<and>
   distinct (map fst (tagslist ex_repo)) \<and>
   fst ` set ex_heads_cache = {''default'', ''stable''} \<and>
   set (tagslist ex_repo) = {(''v1'', ex_node 2), (''v2'', ex_node 5), (''tip'', ex_node 5)}"
proof -
  have a: "get_branches ex_env ex_repo ex_heads_cache ex_marks_cache ex_mapping_cache 4 =
     Inr ([''stable''], [[PBytes ''default'', PBytes ''aaaa'', PBytes ''3'', PBytes ''work'', PBytes ''alice'']], [])"
    by code_simp
  have b: "get_tags ex_env ex_repo ex_marks_cache ex_mapping_cache 4 =
     Inr ([[PBytes ''v1'', PBytes ''default'', PBytes ''cccc'', PInt 2, PBytes ''work'', PBytes ''alice'']],
          [[PBytes ''v2'', PBytes ''stable'', PBytes ''bbbb'', PInt 5, PBytes ''fix'', PBytes ''bob'']])"
    by code_simp
  have d: "distinct (map fst (tagslist ex_repo))"
    by (simp add: ex_repo_def)
  have k: "fst ` set ex_heads_cache = {''default'', ''stable''}"
    by (simp add: ex_heads_cache_def)
  have t: "set (tagslist ex_repo) = {(''v1'', ex_node 2), (''v2'', ex_node 5), (''tip'', ex_node 5)}"
    by (simp add: ex_repo_def)
  show ?thesis
    using classification_complete [of ex_env ex_repo ex_heads_cache ex_marks_cache ex_mapping_cache 4
        "[''stable'']" "[[PBytes ''default'', PBytes ''aaaa'', PBytes ''3'', PBytes ''work'', PBytes ''alice'']]" "[]"
        "[[PBytes ''v1'', PBytes ''default'', PBytes ''cccc'', PInt 2, PBytes ''work'', PBytes ''alice'']]"
        "[[PBytes ''v2'', PBytes ''stable'', PBytes ''bbbb'', PInt 5, PBytes ''fix'', PBytes ''bob'']]"]
      a b d k t by simp
qed

text \<open>
  C2. The classifier compares the Git identifier of the branch with the cached one by
  \<open>is\<close>. Branch \<open>default\<close> has head revision 3; its Git identifier and the marks-cache
  entry under key \<open>4\<close> have the same content \<open>aaaa\<close> and are two objects: the head is
  classified changed, and \<open>unchanged\<close> is empty.
\<close>

theorem get_branches_identity_not_equality:
  "get_git_sha1 ex_env ''default'' = Inr (Some (BytesRef 100 ''aaaa'')) \<and>
   map_of ex_marks_cache (fmt_d (3 + 1)) = Some (BytesRef 4 ''aaaa'') \<and>
   get_branches ex_env ex_repo ex_heads_cache ex_marks_cache ex_mapping_cache 4 =
     Inr ([''stable''], [[PBytes ''default'', PBytes ''aaaa'', PBytes ''3'', PBytes ''work'', PBytes ''alice'']], [])"
  by code_simp

section \<open>Properties of the script body\<close>

text \<open>
  C7. With all six flags given and the caches loaded, when the status cache records a
  tip and \<open>revision + 1\<close> exceeds it, the script writes the one diagnostic line to
  standard error, nothing to standard output, and exits with code 1.
\<close>

theorem main_revision_beyond_tip:
  assumes "marksfile opts = Some marksf" and "mappingfile opts = Some mappingf"
    and "headsfile opts = Some headsf" and "statusfile opts = Some statusf"
    and "repourl opts = Some url" and "revision opts = Some revn"
    and "load_cache ev headsf None = Inr heads_cache"
    and "load_cache ev marksf (Some mangle_mark) = Inr marks_cache"
    and "load_cache ev statusf None = Inr state_cache"
    and "load_cache ev mappingf None = Inr mapping_cache"
    and "map_of state_cache ''tip'' = Some v" and "py_int (PBytes (content v)) = Inr tip"
    and "revn + 1 > tip"
  shows "main ev opts =
           (\<lparr>stdout = [],
             stderr = [''Revision is beyond last revision imported: '' @ fmt_d revn @ ''>'' @ fmt_d tip @ nl]\<rparr>,
            SysExit 1)"
  using assms by (simp add: main_def load_caches_def after_load_def stderr_write_def)

text \<open>\<open>--revision 100\<close> with a recorded tip of 50.\<close>

theorem main_revision_beyond_tip_witness:
  "map_of ex_state_cache ''tip'' = Some (BytesRef 8 ''50'') \<and>
   py_int (PBytes (content (BytesRef 8 ''50''))) = Inr 50 \<and> (100::int) + 1 > 50 \<and>
   main ex_env (ex_options 100) =
     (\<lparr>stdout = [], stderr = [''Revision is beyond last revision imported: 100>50'' @ nl]\<rparr>, SysExit 1)"
proof -
  have f: "fmt_d 100 = ''100''" "fmt_d 50 = ''50''"
    by code_simp+
  have o: "marksfile (ex_options 100) = Some ''marks''" "mappingfile (ex_options 100) = Some ''mapping''"
    "headsfile (ex_options 100) = Some ''heads''" "statusfile (ex_options 100) = Some ''status''"
    "repourl (ex_options 100) = Some ''repo''" "revision (ex_options 100) = Some 100"
    by (simp_all add: ex_options_def)
  have l: "load_cache ex_env ''heads'' None = Inr ex_heads_cache"
    "load_cache ex_env ''marks'' (Some mangle_mark) = Inr ex_marks_cache"
    "load_cache ex_env ''status'' None = Inr ex_state_cache"
    "load_cache ex_env ''mapping'' None = Inr ex_mapping_cache"
    by (simp_all add: ex_env_def ex_load_cache_def)
  have t: "map_of ex_state_cache ''tip'' = Some (BytesRef 8 ''50'')"
    by (simp add: ex_state_cache_def)
  have p: "py_int (PBytes (content (BytesRef 8 ''50''))) = Inr 50"
    by code_simp
  have c: "(100::int) + 1 > 50"
    by simp
  show ?thesis
    using main_revision_beyond_tip [OF o l t p c] t p by (simp add: f)
qed

text \<open>
  C8 (as amended). When any of the six flags is missing, the script exits with code 2;
  the line naming the first missing flag, in the order \<open>--marks\<close>, \<open>--mapping\<close>,
  \<open>--heads\<close>, \<open>--status\<close>, \<open>--repo\<close>, \<open>-R/--revision\<close>, is the one thing written to
  standard error, and the usage text is written to standard output.
\<close>

theorem main_missing_flag:
  assumes "marksfile opts = None \<or> mappingfile opts = None \<or> headsfile opts = None \<or>
           statusfile opts = None \<or> repourl opts = None \<or> revision opts = None"
  shows "snd (main ev opts) = SysExit 2 \<and>
         stdout (fst (main ev opts)) = [usage_text ev] \<and>
         (\<exists>opt \<in> set [''--marks option'', ''--mapping option'', ''--heads option'', ''--status option'',
                        ''--repo option'', ''-R/--revision''].
            stderr (fst (main ev opts)) = [''Error: No option '' @ opt @ '' given'' @ nl]) \<and>
         stderr (fst (main ev opts)) =
           [''Error: No option '' @
              (if marksfile opts = None then ''--marks option''
               else if mappingfile opts = None then ''--mapping option''
               else if headsfile opts = None then ''--heads option''
               else if statusfile opts = None then ''--status option''
               else if repourl opts = None then ''--repo option''
               else ''-R/--revision'') @ '' given'' @ nl]"
  using assms
  by (auto simp: main_def Let_def bail_def stdout_write_def stderr_write_def split: option.splits)

theorem main_missing_flag_witness:
  "mappingfile ((ex_options 3)\<lparr>mappingfile := None, revision := None\<rparr>) = None \<and>
   marksfile ((ex_options 3)\<lparr>mappingfile := None, revision := None\<rparr>) = Some ''marks'' \<and>
   revision ((ex_options 3)\<lparr>mappingfile := None, revision := None\<rparr>) = None \<and>
   snd (main ex_env ((ex_options 3)\<lparr>mappingfile := None, revision := None\<rparr>)) = SysExit 2 \<and>
   stdout (fst (main ex_env ((ex_options 3)\<lparr>mappingfile := None, revision := None\<rparr>))) = [''Usage: hg-reset.py [options]''] \<and>
   stderr (fst (main ex_env ((ex_options 3)\<lparr>mappingfile := None, revision := None\<rparr>))) =
     [''Error: No option --mapping option given'' @ nl]"
proof -
  have a: "marksfile ((ex_options 3)\<lparr>mappingfile := None, revision := None\<rparr>) = None \<or>
           mappingfile ((ex_options 3)\<lparr>mappingfile := None, revision := None\<rparr>) = None \<or>
           headsfile ((ex_options 3)\<lparr>mappingfile := None, revision := None\<rparr>) = None \<or>
           statusfile ((ex_options 3)\<lparr>mappingfile := None, revision := None\<rparr>) = None \<or>
           repourl ((ex_options 3)\<lparr>mappingfile := None, revision := None\<rparr>) = None \<or>
           revision ((ex_options 3)\<lparr>mappingfile := None, revision := None\<rparr>) = None"
    by simp
  have m: "marksfile ((ex_options 3)\<lparr>mappingfile := None, revision := None\<rparr>) = Some ''marks''"
    by (simp add: ex_options_def)
  have u: "usage_text ex_env = ''Usage: hg-reset.py [options]''"
    by (simp add: ex_env_def)
  from main_missing_flag [OF a, of ex_env] have
    "snd (main ex_env ((ex_options 3)\<lparr>mappingfile := None, revision := None\<rparr>)) = SysExit 2"
    "stdout (fst (main ex_env ((ex_options 3)\<lparr>mappingfile := None, revision := None\<rparr>))) = [usage_text ex_env]"
    "stderr (fst (main ex_env ((ex_options 3)\<lparr>mappingfile := None, revision := None\<rparr>))) =
       [''Error: No option '' @
          (if marksfile ((ex_options 3)\<lparr>mappingfile := None, revision := None\<rparr>) = None then ''--marks option''
           else if mappingfile ((ex_options 3)\<lparr>mappingfile := None, revision := None\<rparr>) = None then ''--mapping option''
           else if headsfile ((ex_options 3)\<lparr>mappingfile := None, revision := None\<rparr>) = None then ''--heads option''
           else if statusfile ((ex_options 3)\<lparr>mappingfile := None, revision := None\<rparr>) = None then ''--status option''
           else if repourl ((ex_options 3)\<lparr>mappingfile := None, revision := None\<rparr>) = None then ''--repo option''
           else ''-R/--revision'') @ '' given'' @ nl]"
    by blast+
  then show ?thesis
    using m u by simp
qed

text \<open>
  C8 as stated fails: without \<open>--marks\<close>, standard error holds the error line only; the
  usage text is on standard output.
\<close>

theorem main_usage_text_on_stdout:
  "snd (main ex_env ((ex_options 3)\<lparr>marksfile := None\<rparr>)) = SysExit 2 \<and>
   stderr (fst (main ex_env ((ex_options 3)\<lparr>marksfile := None\<rparr>))) = [''Error: No option --marks option given'' @ nl] \<and>
   usage_text ex_env \<notin> set (stderr (fst (main ex_env ((ex_options 3)\<lparr>marksfile := None\<rparr>)))) \<and>
   stdout (fst (main ex_env ((ex_options 3)\<lparr>marksfile := None\<rparr>))) = [usage_text ex_env]"
  by (simp add: main_def bail_def stdout_write_def stderr_write_def ex_env_def nl_def)

text \<open>
  C10. With all six flags given and the caches loaded, when the status cache has no
  \<open>tip\<close> key the tip is \<open>options.revision\<close> itself, \<open>revision + 1 > tip\<close> holds, and the
  script exits with code 1 having written the diagnostic line and no report.
\<close>

theorem main_without_tip_exits:
  assumes "marksfile opts = Some marksf" and "mappingfile opts = Some mappingf"
    and "headsfile opts = Some headsf" and "statusfile opts = Some statusf"
    and "repourl opts = Some url" and "revision opts = Some revn"
    and "load_cache ev headsf None = Inr heads_cache"
    and "load_cache ev marksf (Some mangle_mark) = Inr marks_cache"
    and "load_cache ev statusf None = Inr state_cache"
    and "load_cache ev mappingf None = Inr mapping_cache"
    and "map_of state_cache ''tip'' = None"
  shows "py_int (case map_of state_cache ''tip'' of None \<Rightarrow> PInt revn | Some v \<Rightarrow> PBytes (content v)) = Inr revn \<and>
         revn + 1 > revn \<and>
         main ev opts =
           (\<lparr>stdout = [],
             stderr = [''Revision is beyond last revision imported: '' @ fmt_d revn @ ''>'' @ fmt_d revn @ nl]\<rparr>,
            SysExit 1)"
  using assms by (simp add: main_def load_caches_def after_load_def stderr_write_def)

theorem main_without_tip_exits_witness:
  "map_of ([] :: cache) ''tip'' = None \<and>
   main (ex_env\<lparr>load_cache := (\<lambda>f k. Inr [])\<rparr>) (ex_options 3) =
     (\<lparr>stdout = [], stderr = [''Revision is beyond last revision imported: 3>3'' @ nl]\<rparr>, SysExit 1)"
proof -
  have f: "fmt_d 3 = ''3''"
    by code_simp
  have o: "marksfile (ex_options 3) = Some ''marks''" "mappingfile (ex_options 3) = Some ''mapping''"
    "headsfile (ex_options 3) = Some ''heads''" "statusfile (ex_options 3) = Some ''status''"
    "repourl (ex_options 3) = Some ''repo''" "revision (ex_options 3) = Some 3"
    by (simp_all add: ex_options_def)
  have l: "load_cache (ex_env\<lparr>load_cache := (\<lambda>f k. Inr [])\<rparr>) ''heads'' None = Inr []"
    "load_cache (ex_env\<lparr>load_cache := (\<lambda>f k. Inr [])\<rparr>) ''marks'' (Some mangle_mark) = Inr []"
    "load_cache (ex_env\<lparr>load_cache := (\<lambda>f k. Inr [])\<rparr>) ''status'' None = Inr []"
    "load_cache (ex_env\<lparr>load_cache := (\<lambda>f k. Inr [])\<rparr>) ''mapping'' None = Inr []"
    by simp_all
  have t: "map_of ([] :: cache) ''tip'' = None"
    by simp
  show ?thesis
    using main_without_tip_exits [OF o l t] by (simp add: f)
qed

end
